theory Spec2Isabelle
  imports Complex_Main "HOL-Library.Multiset" "HOL-Library.AList"
begin

section \<open>Session gateway: services/api, components/Login and App\<close>

text \<open>
  The browser state the session code touches: \<open>localStorage\<close> (a dictionary from key to
  string, \<open>getItem\<close> of an absent key is \<open>null\<close>), the calls that wrote to it, and the
  HTTP requests sent through the axios instance, each in the order they were issued.
\<close>

datatype http_request = POST string "string \<times> string" | GET string

datatype storage_call = SetItem string string | RemoveItem string

record browser =
  localStorage :: "string \<rightharpoonup> string"
  storageCalls :: "storage_call list"
  requests :: "http_request list"

definition TOKEN_KEY :: string where
  "TOKEN_KEY = ''delibery_token''"

definition EMAIL_KEY :: string where
  "EMAIL_KEY = ''delibery_user_email''"

definition getItem :: "string \<Rightarrow> browser \<Rightarrow> string option" where
  "getItem k b = localStorage b k"

definition setItem :: "string \<Rightarrow> string \<Rightarrow> browser \<Rightarrow> browser" where
  "setItem k v b =
     b\<lparr>localStorage := (localStorage b)(k \<mapsto> v), storageCalls := storageCalls b @ [SetItem k v]\<rparr>"

definition removeItem :: "string \<Rightarrow> browser \<Rightarrow> browser" where
  "removeItem k b =
     b\<lparr>localStorage := (localStorage b)(k := None), storageCalls := storageCalls b @ [RemoveItem k]\<rparr>"

text \<open>
  \<open>AuthResponse\<close> as it arrives from JSON: \<open>ok\<close> is read as a boolean; a string field
  may be missing, which JavaScript reads as \<open>undefined\<close> (\<open>None\<close> here).
\<close>

record AuthResponse =
  ok :: bool
  token :: "string option"
  clientId :: "string option"
  email :: "string option"
  hasCredentials :: bool
  erro :: "string option"
  code :: "string option"

text \<open>
  What \<open>await authService.login(email, password)\<close> yields: the promise resolves with the
  response body, or axios rejects. The handler reads nothing of a rejection but
  \<open>err.response?.data?.erro\<close>: there is no response at all (network failure), or there is
  one whose body may carry \<open>erro\<close>.
\<close>

datatype axios_error = NoResponse | ErrorResponse "string option"

datatype login_result = Resolved AuthResponse | Rejected axios_error

text \<open>JavaScript truthiness of a possibly missing string: present and not empty.\<close>

fun truthy :: "string option \<Rightarrow> bool" where
  "truthy None = False"
| "truthy (Some s) = (s \<noteq> [])"

text \<open>\<open>localStorage.setItem\<close> stores the string conversion of its argument.\<close>

fun to_string :: "string option \<Rightarrow> string" where
  "to_string None = ''undefined''"
| "to_string (Some s) = s"

text \<open>\<open>x || d\<close> for a possibly missing string \<open>x\<close> and a literal \<open>d\<close>.\<close>

fun or_else :: "string option \<Rightarrow> string \<Rightarrow> string" where
  "or_else None d = d"
| "or_else (Some s) d = (if s = [] then d else s)"

text \<open>The two literal messages of \<open>handleSubmit\<close>; the first holds UTF-8 for c-cedilla and a-tilde.\<close>

definition AUTH_FAILED :: string where
  "AUTH_FAILED =
     ''Falha na autentica'' @ [CHR 0xC3, CHR 0xA7, CHR 0xC3, CHR 0xA3] @
     ''o. Verifique suas credenciais.''"

definition CONNECT_FAILED :: string where
  "CONNECT_FAILED = ''Erro ao conectar com o servidor.''"

text \<open>
  The Login component with its surroundings: the browser, the component's \<open>loading\<close> and
  \<open>error\<close> state, and the arguments \<open>onLoginSuccess\<close> has been called with.
\<close>

record login_page =
  page_browser :: browser
  loading :: bool
  error :: "string option"
  loginSuccess :: "string option list"

definition authService_login :: "string \<Rightarrow> string \<Rightarrow> browser \<Rightarrow> browser" where
  "authService_login em pw b = b\<lparr>requests := requests b @ [POST ''/login'' (em, pw)]\<rparr>"

definition authService_logout :: "browser \<Rightarrow> browser" where
  "authService_logout b = removeItem EMAIL_KEY (removeItem TOKEN_KEY b)"

text \<open>\<open>err.response?.data?.erro || "Erro ao conectar com o servidor."\<close>\<close>

fun catch_message :: "axios_error \<Rightarrow> string" where
  "catch_message NoResponse = CONNECT_FAILED"
| "catch_message (ErrorResponse r) = or_else r CONNECT_FAILED"

text \<open>
  \<open>handleSubmit\<close>: \<open>setLoading(true); setError(null)\<close>, the request, then the \<open>try\<close> body
  on a resolved promise, the \<open>catch\<close> body on a rejected one, and \<open>finally\<close>.
\<close>

definition handleSubmit :: "string \<Rightarrow> string \<Rightarrow> login_result \<Rightarrow> login_page \<Rightarrow> login_page" where
  "handleSubmit em pw res p =
     (let p1 = p\<lparr>loading := True, error := None\<rparr>;
          p2 = p1\<lparr>page_browser := authService_login em pw (page_browser p1)\<rparr>;
          p3 = (case res of
                  Resolved d \<Rightarrow>
                    if ok d \<and> truthy (token d) then
                      p2\<lparr>page_browser :=
                            setItem EMAIL_KEY (to_string (email d))
                              (setItem TOKEN_KEY (to_string (token d)) (page_browser p2)),
                         loginSuccess := loginSuccess p2 @ [email d]\<rparr>
                    else p2\<lparr>error := Some AUTH_FAILED\<rparr>
                | Rejected err \<Rightarrow> p2\<lparr>error := Some (catch_message err)\<rparr>)
      in p3\<lparr>loading := False\<rparr>)"

text \<open>
  App: the mount effect reads both keys and resumes a session only when both are truthy;
  \<open>handleLogout\<close> calls \<open>authService.logout()\<close> and resets the component state.
\<close>

record app =
  app_token :: "string option"
  userEmail :: string
  initializing :: bool

definition currentSession :: "browser \<Rightarrow> (string \<times> string) option" where
  "currentSession b =
     (case (getItem TOKEN_KEY b, getItem EMAIL_KEY b) of
        (Some storedToken, Some storedEmail) \<Rightarrow>
          if storedToken \<noteq> [] \<and> storedEmail \<noteq> [] then Some (storedToken, storedEmail) else None
      | _ \<Rightarrow> None)"

definition App_mount :: "browser \<Rightarrow> app \<Rightarrow> app" where
  "App_mount b a =
     (case currentSession b of
        Some (t, e) \<Rightarrow> a\<lparr>app_token := Some t, userEmail := e, initializing := False\<rparr>
      | None \<Rightarrow> a\<lparr>initializing := False\<rparr>)"

definition handleLogout :: "browser \<times> app \<Rightarrow> browser \<times> app" where
  "handleLogout s =
     (case s of (b, a) \<Rightarrow> (authService_logout b, a\<lparr>app_token := None, userEmail := []\<rparr>))"

section \<open>Metrics aggregator: components/Dashboard\<close>

subsection \<open>Numbers and their text\<close>

text \<open>
  The numbers of a record come from JSON and are finite doubles; a finite double is
  modelled by the rational it denotes. \<open>toFixed\<close> and \<open>parseFloat\<close> work on that exact
  value; the arithmetic of the code, which rounds, is in the section on double arithmetic
  below. A numeric field of a record may be missing (\<open>None\<close>); \<open>x || 0\<close> reads a missing
  field, and a zero, as 0.
\<close>

fun or_zero :: "rat option \<Rightarrow> rat" where
  "or_zero None = 0"
| "or_zero (Some x) = x"

definition digit_char :: "nat \<Rightarrow> char" where
  "digit_char d = ''0123456789'' ! d"

definition is_digit :: "char \<Rightarrow> bool" where
  "is_digit c = (c \<in> set ''0123456789'')"

definition digit_val :: "char \<Rightarrow> nat" where
  "digit_val c = of_char c - 48"

text \<open>The decimal digits of a natural number, most significant first, and back.\<close>

fun digits :: "nat \<Rightarrow> string" where
  "digits n = (if n < 10 then [digit_char n] else digits (n div 10) @ [digit_char (n mod 10)])"

definition digits_val :: "string \<Rightarrow> nat" where
  "digits_val ds = foldl (\<lambda>a c. 10 * a + digit_val c) 0 ds"

text \<open>
  \<open>Number.prototype.toFixed(f)\<close>, for \<open>f\<close> from 0 to 100 (the code passes 1 and 2). Below
  \<open>10^21\<close> in magnitude the result is fixed notation: the sign, then the integer \<open>n\<close>
  nearest to \<open>|x| * 10^f\<close> (the larger of two equally near), written in decimal, padded
  with zeros to \<open>f + 1\<close> digits, with a point before the last \<open>f\<close>. From \<open>10^21\<close> on
  \<open>toFixed\<close> returns the number's ordinary string conversion, which is in exponent
  notation there; its digits depend on the double and are not spelled out.
\<close>

datatype numeral_text = FixedNotation string | ExponentNotation rat

definition toFixed :: "nat \<Rightarrow> rat \<Rightarrow> numeral_text" where
  "toFixed f x =
     (if 10 ^ 21 \<le> \<bar>x\<bar> then ExponentNotation x
      else
        let s = (if x < 0 then ''-'' else []);
            n = nat \<lfloor>\<bar>x\<bar> * 10 ^ f + 1 / 2\<rfloor>;
            m = digits n;
            padded = (if length m \<le> f then replicate (f + 1 - length m) (CHR ''0'') @ m else m);
            k = length padded
        in FixedNotation
             (s @ (if f \<noteq> 0 then take (k - f) padded @ ''.'' @ drop (k - f) padded else m)))"

text \<open>
  \<open>parseFloat\<close> on the texts \<open>toFixed\<close> returns: an optional sign, digits, and optionally a
  point and digits; a text with neither integer nor fraction digits is \<open>NaN\<close>. The
  exponent notation of a number reads back as that number.
\<close>

datatype jsnumber = Number rat | NaN

definition parse_decimal :: "string \<Rightarrow> jsnumber" where
  "parse_decimal str =
     (let neg = (case str of [] \<Rightarrow> False | c # cs \<Rightarrow> c = CHR ''-'');
          body = (case str of [] \<Rightarrow> [] | c # cs \<Rightarrow> if c = CHR ''-'' \<or> c = CHR ''+'' then cs else str);
          ip = takeWhile is_digit body;
          rest = dropWhile is_digit body;
          fp = (case rest of [] \<Rightarrow> [] | c # cs \<Rightarrow> if c = CHR ''.'' then takeWhile is_digit cs else []);
          v = of_nat (digits_val ip) + of_nat (digits_val fp) / 10 ^ length fp
      in if ip = [] \<and> fp = [] then NaN else Number (if neg then - v else v))"


subsection \<open>Double arithmetic\<close>

text \<open>
  The result of \<open>+\<close>, \<open>/\<close> and \<open>*\<close> on doubles is the exact result rounded to the nearest
  double, to the one with the even significand of two equally near (IEEE 754 binary64:
  53 significant bits, exponents from \<open>-1022\<close> to \<open>1023\<close>, and below \<open>2^-1022\<close> the
  doubles stay \<open>2^-1074\<close> apart). A result that rounds to \<open>2^1024\<close> or more in magnitude
  is an infinity. \<open>NaN\<close> does not arise in the operations modelled here: the numbers
  added are finite, the divisor is a positive count and the factor is 100.

  \<open>pow2 k\<close> is \<open>2^k\<close> for an integer \<open>k\<close>; \<open>binade x\<close> is the exponent \<open>e\<close> with
  \<open>2^e \<le> x < 2^(e+1)\<close> of a positive \<open>x\<close>; \<open>round_half_even\<close> is the nearest integer,
  the even one of two equally near; \<open>to_double\<close> rounds an exact result to a double.
\<close>

datatype double = Finite rat | PosInfinity | NegInfinity

definition pow2 :: "int \<Rightarrow> rat" where
  "pow2 k = (if 0 \<le> k then 2 ^ nat k else 1 / 2 ^ nat (- k))"

function binade :: "rat \<Rightarrow> int" where
  "binade x =
     (if x \<le> 0 then 0
      else if x < 1 then binade (2 * x) - 1
      else if 2 \<le> x then binade (x / 2) + 1
      else 0)"
  by pat_completeness auto
termination
proof (relation "measure (\<lambda>x. if x < 1 then nat \<lceil>1 / x\<rceil> else nat \<lfloor>x\<rfloor>)")
  show "wf (measure (\<lambda>x::rat. if x < 1 then nat \<lceil>1 / x\<rceil> else nat \<lfloor>x\<rfloor>))" by simp
next
  fix x :: rat
  assume a: "\<not> x \<le> 0" "x < 1"
  show "(2 * x, x) \<in> measure (\<lambda>x. if x < 1 then nat \<lceil>1 / x\<rceil> else nat \<lfloor>x\<rfloor>)"
  proof (cases "2 * x < 1")
    case True
    define t where "t = 1 / x"
    have t2: "2 < t" using a True by (simp add: t_def field_simps)
    have "of_int \<lceil>t / 2\<rceil> < t / 2 + 1" using ceiling_correct [of "t / 2"] by linarith
    then have "of_int \<lceil>t / 2\<rceil> < t" using t2 by simp
    also have "t \<le> of_int \<lceil>t\<rceil>" by simp
    finally have "\<lceil>t / 2\<rceil> < \<lceil>t\<rceil>" by simp
    moreover have "0 < \<lceil>t\<rceil>" using t2 by simp
    ultimately have lt: "nat \<lceil>t / 2\<rceil> < nat \<lceil>t\<rceil>" by simp
    have "1 / (2 * x) = t / 2" by (simp add: t_def)
    with lt have "nat \<lceil>1 / (2 * x)\<rceil> < nat \<lceil>1 / x\<rceil>" by (simp only: t_def)
    then show ?thesis using True a by simp
  next
    case False
    then have "1 \<le> 2 * x" "2 * x < 2" using a by simp_all
    then have f: "\<lfloor>2 * x\<rfloor> = 1" by (simp add: floor_eq_iff)
    have "1 < 1 / x" using a by simp
    then have "1 < \<lceil>1 / x\<rceil>" by (simp add: less_ceiling_iff)
    with f False a show ?thesis by simp
  qed
next
  fix x :: rat
  assume a: "\<not> x \<le> 0" "\<not> x < 1" "2 \<le> x"
  have "x / 2 \<le> x - 1" using a by simp
  then have "\<lfloor>x / 2\<rfloor> \<le> \<lfloor>x - 1\<rfloor>" by (rule floor_mono)
  then have "\<lfloor>x / 2\<rfloor> < \<lfloor>x\<rfloor>" by simp
  moreover have "0 < \<lfloor>x\<rfloor>" using a by simp
  ultimately have "nat \<lfloor>x / 2\<rfloor> < nat \<lfloor>x\<rfloor>" by simp
  moreover have "\<not> x / 2 < 1" using a by simp
  ultimately show "(x / 2, x) \<in> measure (\<lambda>x. if x < 1 then nat \<lceil>1 / x\<rceil> else nat \<lfloor>x\<rfloor>)"
    using a by simp
qed

declare binade.simps [simp del]

definition round_half_even :: "rat \<Rightarrow> int" where
  "round_half_even q =
     (let n = \<lfloor>q\<rfloor>; r = q - of_int n
      in if r < 1 / 2 then n else if 1 / 2 < r then n + 1 else if even n then n else n + 1)"

definition to_double :: "rat \<Rightarrow> double" where
  "to_double x =
     (if x = 0 then Finite 0
      else
        let e = max (binade \<bar>x\<bar>) (- 1022);
            ulp = pow2 (e - 52);
            y = of_int (round_half_even (\<bar>x\<bar> / ulp)) * ulp
        in if pow2 1024 \<le> y then (if x < 0 then NegInfinity else PosInfinity)
           else Finite (if x < 0 then - y else y))"

text \<open>
  The operations as the code uses them: \<open>acc + x\<close> for an accumulated double and a finite
  number, \<open>total / n\<close> for a double and a positive count, \<open>ratio * 100\<close>. An infinity stays
  what it is under each of them.
\<close>

fun plus_double :: "double \<Rightarrow> rat \<Rightarrow> double" where
  "plus_double (Finite a) b = to_double (a + b)"
| "plus_double PosInfinity b = PosInfinity"
| "plus_double NegInfinity b = NegInfinity"

fun divide_double :: "double \<Rightarrow> nat \<Rightarrow> double" where
  "divide_double (Finite a) n = to_double (a / of_nat n)"
| "divide_double PosInfinity n = PosInfinity"
| "divide_double NegInfinity n = NegInfinity"

fun times_double :: "double \<Rightarrow> rat \<Rightarrow> double" where
  "times_double (Finite a) b = to_double (a * b)"
| "times_double PosInfinity b = PosInfinity"
| "times_double NegInfinity b = NegInfinity"

text \<open>\<open>toFixed\<close> of an infinity is its name, whatever the number of decimals.\<close>

fun toFixed_double :: "nat \<Rightarrow> double \<Rightarrow> numeral_text" where
  "toFixed_double f (Finite x) = toFixed f x"
| "toFixed_double f PosInfinity = FixedNotation ''Infinity''"
| "toFixed_double f NegInfinity = FixedNotation ''-Infinity''"

subsection \<open>Objects and arrays\<close>

text \<open>
  A plain object used as a dictionary: its own properties in creation order. An assignment
  to an existing key keeps the key's place, a new key goes last. \<open>Object.entries\<close> and
  \<open>Object.values\<close> list array-index keys first, in ascending numeric order, then the
  other keys in creation order. An array index is the canonical decimal text of an integer
  from 0 to \<open>2^32 - 2\<close>.
\<close>

type_synonym 'v jsobject = "(string \<times> 'v) list"

definition is_array_index :: "string \<Rightarrow> bool" where
  "is_array_index k =
     (k \<noteq> [] \<and> list_all is_digit k \<and> (k = ''0'' \<or> hd k \<noteq> CHR ''0'') \<and> digits_val k < 2 ^ 32 - 1)"

definition Object_entries :: "'v jsobject \<Rightarrow> (string \<times> 'v) list" where
  "Object_entries obj =
     sort_key (\<lambda>p. digits_val (fst p)) (filter (\<lambda>p. is_array_index (fst p)) obj) @
     filter (\<lambda>p. \<not> is_array_index (fst p)) obj"

definition Object_values :: "'v jsobject \<Rightarrow> 'v list" where
  "Object_values obj = map snd (Object_entries obj)"

text \<open>
  \<open>Array.prototype.sort(cmp)\<close>: for a consistent comparator the result is the stable
  arrangement of the elements in comparator order, whatever algorithm the engine runs;
  insertion from the right computes it.
\<close>

fun insert_by :: "('a \<Rightarrow> 'a \<Rightarrow> rat) \<Rightarrow> 'a \<Rightarrow> 'a list \<Rightarrow> 'a list" where
  "insert_by cmp x [] = [x]"
| "insert_by cmp x (y # ys) = (if cmp x y \<le> 0 then x # y # ys else y # insert_by cmp x ys)"

definition Array_sort :: "('a \<Rightarrow> 'a \<Rightarrow> rat) \<Rightarrow> 'a list \<Rightarrow> 'a list" where
  "Array_sort cmp xs = foldr (insert_by cmp) xs []"

text \<open>\<open>xs.slice(start)\<close>: a negative \<open>start\<close> counts from the end, and both ends are clamped.\<close>

definition slice :: "int \<Rightarrow> 'a list \<Rightarrow> 'a list" where
  "slice start xs =
     (let len = int (length xs);
          k = (if start < 0 then max (len + start) 0 else min start len)
      in drop (nat k) xs)"

subsection \<open>Records and the derived views\<close>

text \<open>
  \<open>MetricData\<close> as parsed from the JSON of \<open>GET /metricas\<close>: any field may be missing.
  The field \<open>method\<close> is \<open>httpMethod\<close> here.
\<close>

record MetricData =
  httpMethod :: "string option"
  endpoint :: "string option"
  responseTimeMs :: "rat option"
  serverProcessingMs :: "rat option"
  requestSizeBytes :: "rat option"
  responseSizeBytes :: "rat option"
  statusCode :: "rat option"
  userAgent :: "string option"
  ip :: "string option"
  timestampMs :: "rat option"
  timestampISO :: "string option"
  minuteBucket :: "string option"
  hourBucket :: "string option"
  dayBucket :: "string option"

text \<open>
  \<open>fetchData\<close>, the value handed to \<open>setMetrics\<close>:
  \<open>Object.values(data).sort((a, b) => (a.timestampMs || 0) - (b.timestampMs || 0))\<close>.
\<close>

definition by_timestamp :: "MetricData \<Rightarrow> MetricData \<Rightarrow> rat" where
  "by_timestamp a b = or_zero (timestampMs a) - or_zero (timestampMs b)"

definition metricsArray :: "MetricData jsobject \<Rightarrow> MetricData list" where
  "metricsArray data = Array_sort by_timestamp (Object_values data)"

text \<open>
  \<open>latencyData\<close>. The clock text of a timestamp depends on the browser's locale and time
  zone, so \<open>new Date(t).toLocaleTimeString(...)\<close> is a parameter.
\<close>

record LatencyPoint =
  name :: nat
  ms :: jsnumber
  time :: string



text \<open>
  \<open>methodData\<close>. \<open>counts\<close> starts as \<open>{}\<close>, so a read of a key it does not own falls through
  to \<open>Object.prototype\<close>: for the names below it finds a built-in function (an object, for
  \<open>__proto__\<close>), which is truthy, and \<open>+ 1\<close> then appends the character 1 to its text;
  the text of a built-in function is the engine's, so such a value is kept as the member's
  name and the number of 1s appended. Assigning a string to \<open>__proto__\<close> changes nothing.
  An entry \<open>{name, value}\<close> of the result is the pair of the two.
\<close>

datatype tally = Count nat | NativeText string nat

definition Object_prototype_names :: "string list" where
  "Object_prototype_names =
     [''constructor'', ''__defineGetter__'', ''__defineSetter__'', ''hasOwnProperty'',
      ''__lookupGetter__'', ''__lookupSetter__'', ''isPrototypeOf'', ''propertyIsEnumerable'',
      ''toString'', ''valueOf'', ''__proto__'', ''toLocaleString'']"

definition bump :: "tally jsobject \<Rightarrow> string \<Rightarrow> tally" where
  "bump counts k =
     (case map_of counts k of
        Some (Count n) \<Rightarrow> Count (n + 1)
      | Some (NativeText f j) \<Rightarrow> NativeText f (j + 1)
      | None \<Rightarrow> if k \<in> set Object_prototype_names then NativeText k 1 else Count 1)"

definition assign :: "tally jsobject \<Rightarrow> string \<Rightarrow> tally \<Rightarrow> tally jsobject" where
  "assign counts k v = (if k = ''__proto__'' then counts else AList.update k v counts)"

definition method_label :: "MetricData \<Rightarrow> string" where
  "method_label m = or_else (httpMethod m) ''UNKNOWN''"

definition count_method :: "tally jsobject \<Rightarrow> MetricData \<Rightarrow> tally jsobject" where
  "count_method counts m =
     (let method = method_label m in assign counts method (bump counts method))"

definition methodData :: "MetricData list \<Rightarrow> (string \<times> tally) list" where
  "methodData metrics = Object_entries (foldl count_method [] metrics)"

text \<open>The rows of the log table: \<open>metrics.slice(-10).reverse()\<close>.\<close>

definition recentLog :: "MetricData list \<Rightarrow> MetricData list" where
  "recentLog metrics = rev (slice (- 10) metrics)"

text \<open>
  The summary record \<open>stats\<close>. \<open>metrics.reduce((acc, curr) => acc + (curr.responseTimeMs
  || 0), 0)\<close> adds from left to right and rounds each sum; \<open>m.statusCode >= 400\<close> is false
  for a missing status code; the two counts are whole numbers below \<open>2^32\<close>, hence
  doubles, and their quotient and its product with 100 are rounded.
  \<open>Math.max(...latencies)\<close> passes every element as an argument of one call, which an
  engine refuses with a \<open>RangeError\<close> beyond its limit on the arguments of a call: that
  limit is the parameter \<open>max_arguments\<close>, and the call comes after the mean and the error
  rate are computed. The largest of finitely many finite doubles is one of them.
\<close>

datatype js_error = RangeError

record DerivedStats =
  avgLatency :: numeral_text
  totalRequests :: nat
  errorRate :: numeral_text
  peakLatency :: numeral_text

fun is_error_status :: "rat option \<Rightarrow> bool" where
  "is_error_status None = False"
| "is_error_status (Some c) = (400 \<le> c)"

definition totalLatency :: "MetricData list \<Rightarrow> double" where
  "totalLatency metrics =
     foldl (\<lambda>acc curr. plus_double acc (or_zero (responseTimeMs curr))) (Finite 0) metrics"

definition errors :: "MetricData list \<Rightarrow> nat" where
  "errors metrics = length (filter (\<lambda>m. is_error_status (statusCode m)) metrics)"

definition latencies :: "MetricData list \<Rightarrow> rat list" where
  "latencies metrics = map (\<lambda>m. or_zero (responseTimeMs m)) metrics"

definition stats :: "nat \<Rightarrow> MetricData list \<Rightarrow> js_error + DerivedStats" where
  "stats max_arguments metrics =
     (if length metrics = 0 then
        Inr \<lparr>avgLatency = FixedNotation ''0.00'', totalRequests = 0,
             errorRate = FixedNotation ''0.0'', peakLatency = FixedNotation ''0.00''\<rparr>
      else
        let totalRequests = length metrics;
            avgLatency = toFixed_double 2 (divide_double (totalLatency metrics) totalRequests);
            errorRate =
              toFixed_double 1
                (times_double (to_double (of_nat (errors metrics) / of_nat totalRequests)) 100)
        in if max_arguments < length (latencies metrics) then Inl RangeError
           else
             Inr \<lparr>avgLatency = avgLatency, totalRequests = totalRequests, errorRate = errorRate,
                  peakLatency = (case latencies metrics of
                                   [] \<Rightarrow> FixedNotation ''0.00''
                                 | l # ls \<Rightarrow> toFixed 2 (foldl max l ls))\<rparr>)"

section \<open>What the specification's words mean\<close>

text \<open>
  A number to \<open>f\<close> decimals: the multiple of \<open>10^-f\<close> nearest to it, the one away from
  zero of two equally near.
\<close>

definition to_decimals :: "nat \<Rightarrow> rat \<Rightarrow> rat" where
  "to_decimals f x = sgn x * of_int \<lfloor>\<bar>x\<bar> * 10 ^ f + 1 / 2\<rfloor> / 10 ^ f"

text \<open>
  A text is a number formatted to \<open>f\<close> decimal places when it is in fixed notation, shows
  exactly \<open>f\<close> digits after the point (no point when \<open>f\<close> is 0), and reads as the number
  to \<open>f\<close> decimals.
\<close>

definition decimals_shown :: "string \<Rightarrow> nat" where
  "decimals_shown s = length (takeWhile is_digit (drop 1 (dropWhile (\<lambda>c. c \<noteq> CHR ''.'') s)))"

fun renders :: "nat \<Rightarrow> rat \<Rightarrow> numeral_text \<Rightarrow> bool" where
  "renders f x (FixedNotation s) = (parse_decimal s = Number (to_decimals f x) \<and> decimals_shown s = f)"
| "renders f x (ExponentNotation y) = False"

text \<open>A sequence in ascending order of timestamp, a missing timestamp counting as 0.\<close>

definition ascending :: "MetricData list \<Rightarrow> bool" where
  "ascending metrics =
     sorted_wrt (\<lambda>a b. or_zero (timestampMs a) \<le> or_zero (timestampMs b)) metrics"

text \<open>
  The distinct elements of a list in order of first occurrence, and the table that gives
  each of the keys \<open>ks\<close> the number of its occurrences among \<open>labels\<close>.
\<close>

definition first_seen :: "'a list \<Rightarrow> 'a list" where
  "first_seen xs = foldl (\<lambda>seen x. if x \<in> set seen then seen else seen @ [x]) [] xs"

definition tallies :: "string list \<Rightarrow> string list \<Rightarrow> (string \<times> tally) list" where
  "tallies labels ks = map (\<lambda>k. (k, Count (count_list labels k))) ks"

text \<open>
  The mean response time, the share of status codes from 400 in percent and the largest
  response time of a sequence, as exact numbers; a missing response time counts as 0.
\<close>

definition mean_latency :: "MetricData list \<Rightarrow> rat" where
  "mean_latency metrics =
     sum_list (map (\<lambda>m. or_zero (responseTimeMs m)) metrics) / of_nat (length metrics)"

definition error_percent :: "MetricData list \<Rightarrow> rat" where
  "error_percent metrics =
     of_nat (length (filter (\<lambda>m. is_error_status (statusCode m)) metrics)) /
       of_nat (length metrics) * 100"

definition max_latency :: "MetricData list \<Rightarrow> rat" where
  "max_latency metrics = Max (set (map (\<lambda>m. or_zero (responseTimeMs m)) metrics))"

section \<open>Concrete inputs\<close>

text \<open>A browser that holds a session, and two responses of \<open>POST /login\<close>.\<close>

definition page0 :: login_page where
  "page0 =
     \<lparr>page_browser =
        \<lparr>localStorage = [TOKEN_KEY \<mapsto> ''t0'', EMAIL_KEY \<mapsto> ''old@x.io''],
         storageCalls = [], requests = []\<rparr>,
      loading = False, error = None, loginSuccess = []\<rparr>"

definition denied :: AuthResponse where
  "denied =
     \<lparr>ok = False, token = Some ''t1'', clientId = None, email = Some ''new@x.io'',
      hasCredentials = False, erro = Some ''Senha incorreta'', code = Some ''AUTH''\<rparr>"

definition granted :: AuthResponse where
  "granted =
     \<lparr>ok = True, token = Some ''t1'', clientId = Some ''c1'', email = Some ''new@x.io'',
      hasCredentials = True, erro = None, code = None\<rparr>"

text \<open>
  Records: one with every field missing, the \<open>i\<close>-th of a run of requests, one stamped
  with the epoch; and a clock format.
\<close>

definition blank :: MetricData where
  "blank =
     \<lparr>httpMethod = None, endpoint = None, responseTimeMs = None, serverProcessingMs = None,
      requestSizeBytes = None, responseSizeBytes = None, statusCode = None, userAgent = None,
      ip = None, timestampMs = None, timestampISO = None, minuteBucket = None,
      hourBucket = None, dayBucket = None\<rparr>"

definition sample :: "nat \<Rightarrow> MetricData" where
  "sample i =
     blank\<lparr>responseTimeMs := Some (of_nat i + 1 / 8), timestampMs := Some (of_nat i * 1000)\<rparr>"

definition twelve :: "MetricData list" where
  "twelve = map sample [1, 2, 3, 4, 5, 6, 7, 8, 9, 10, 11, 12]"





text \<open>
  Four records by method, and a response of \<open>GET /metricas\<close> with two keys that are
  array indices.
\<close>

definition with_method :: "string \<Rightarrow> MetricData" where
  "with_method s = blank\<lparr>httpMethod := Some s\<rparr>"

definition four :: "MetricData list" where
  "four = [with_method ''GET'', with_method ''GET'', with_method ''POST'', blank]"

definition data0 :: "MetricData jsobject" where
  "data0 = [(''-Nb'', sample 3), (''-Na'', sample 2), (''10'', blank), (''7'', sample 7)]"

text \<open>
  Three requests with their response time and status code; five requests of which one
  took 0.375 ms and the others have no response time; eighty requests of which 23 have
  status 500. Each of these numbers is a double.
\<close>

definition request :: "rat \<Rightarrow> rat \<Rightarrow> MetricData" where
  "request t c = blank\<lparr>responseTimeMs := Some t, statusCode := Some c\<rparr>"

definition three :: "MetricData list" where
  "three = [request 100 200, request 200 404, request 300 500]"

definition eighths :: MetricData where
  "eighths = blank\<lparr>responseTimeMs := Some (3 / 8)\<rparr>"

definition five :: "MetricData list" where
  "five = [eighths, blank, blank, blank, blank]"

definition failed :: MetricData where
  "failed = blank\<lparr>statusCode := Some 500\<rparr>"

definition eighty :: "MetricData list" where
  "eighty = replicate 23 failed @ replicate 57 blank"

section \<open>The session gateway's properties\<close>

lemmas session_defs =
  getItem_def setItem_def removeItem_def authService_login_def authService_logout_def
  handleSubmit_def currentSession_def App_mount_def handleLogout_def Let_def

lemmas session_keys = TOKEN_KEY_def EMAIL_KEY_def

text \<open>
  C6. A login whose response has \<open>ok = false\<close>, and a login whose request is rejected
  (network failure or error response), calls \<open>setItem\<close> not once and leaves
  \<open>localStorage\<close>, and with it the session a reload would resume, as it was.
\<close>

theorem failed_login_keeps_session:
  "(\<not> ok d \<longrightarrow>
      localStorage (page_browser (handleSubmit em pw (Resolved d) p)) = localStorage (page_browser p) \<and>
      storageCalls (page_browser (handleSubmit em pw (Resolved d) p)) = storageCalls (page_browser p) \<and>
      currentSession (page_browser (handleSubmit em pw (Resolved d) p)) = currentSession (page_browser p)) \<and>
   localStorage (page_browser (handleSubmit em pw (Rejected err) p)) = localStorage (page_browser p) \<and>
   storageCalls (page_browser (handleSubmit em pw (Rejected err) p)) = storageCalls (page_browser p) \<and>
   currentSession (page_browser (handleSubmit em pw (Rejected err) p)) = currentSession (page_browser p)"
  by (simp add: session_defs)

theorem failed_login_keeps_session_witness:
  "\<not> ok denied \<and>
   getItem TOKEN_KEY (page_browser (handleSubmit ''new@x.io'' ''pw'' (Resolved denied) page0)) = Some ''t0'' \<and>
   getItem EMAIL_KEY (page_browser (handleSubmit ''new@x.io'' ''pw'' (Resolved denied) page0)) = Some ''old@x.io'' \<and>
   storageCalls (page_browser (handleSubmit ''new@x.io'' ''pw'' (Resolved denied) page0)) = [] \<and>
   getItem TOKEN_KEY (page_browser (handleSubmit ''new@x.io'' ''pw'' (Rejected NoResponse) page0)) = Some ''t0''"
proof -
  have h: "\<not> ok denied" by (simp add: denied_def)
  from failed_login_keeps_session [of denied "''new@x.io''" "''pw''" page0 NoResponse] h
  show ?thesis
    by (simp add: getItem_def page0_def session_keys)
qed

text \<open>
  C7, as the code has it. A rejected request shows the \<open>erro\<close> of the error response when
  there is one and it is not empty, and the connectivity message otherwise. A response
  that resolves but is turned down (\<open>ok\<close> false, or the token missing or empty) shows the
  fixed authentication message, whatever \<open>erro\<close> its body carries.
\<close>

theorem login_error_message:
  "error (handleSubmit em pw (Rejected NoResponse) p) = Some CONNECT_FAILED \<and>
   error (handleSubmit em pw (Rejected (ErrorResponse None)) p) = Some CONNECT_FAILED \<and>
   error (handleSubmit em pw (Rejected (ErrorResponse (Some r))) p) =
     Some (if r = [] then CONNECT_FAILED else r) \<and>
   (\<not> (ok d \<and> truthy (token d)) \<longrightarrow>
      error (handleSubmit em pw (Resolved d) p) = Some AUTH_FAILED)"
  by (simp add: session_defs)

theorem login_error_message_witness:
  "\<not> (ok denied \<and> truthy (token denied)) \<and>
   error (handleSubmit ''a'' ''b'' (Resolved denied) page0) = Some AUTH_FAILED \<and>
   error (handleSubmit ''a'' ''b'' (Rejected (ErrorResponse (Some ''Senha incorreta''))) page0)
     = Some ''Senha incorreta''"
proof -
  have h: "\<not> (ok denied \<and> truthy (token denied))" by (simp add: denied_def)
  from login_error_message [of "''a''" "''b''" page0 "''Senha incorreta''" denied] h
  show ?thesis by simp
qed

text \<open>
  C7 as stated fails: the response \<open>denied\<close> carries the reason \<open>Senha incorreta\<close>, and
  the message shown is neither that reason nor the connectivity message.
\<close>

theorem server_reason_not_shown:
  "erro denied = Some ''Senha incorreta'' \<and>
   error (handleSubmit ''a'' ''b'' (Resolved denied) page0) = Some AUTH_FAILED \<and>
   AUTH_FAILED \<noteq> ''Senha incorreta'' \<and> AUTH_FAILED \<noteq> CONNECT_FAILED"
  by (simp add: session_defs denied_def page0_def AUTH_FAILED_def CONNECT_FAILED_def)

text \<open>
  C8. After \<open>authService.logout()\<close> neither key is stored, the read of the stored session
  finds none, so a mount resumes nothing; \<open>handleLogout\<close> does exactly this to the
  browser; and no request is sent.
\<close>

theorem logout_clears_session:
  "getItem TOKEN_KEY (authService_logout b) = None \<and>
   getItem EMAIL_KEY (authService_logout b) = None \<and>
   currentSession (authService_logout b) = None \<and>
   app_token (App_mount (authService_logout b) a) = app_token a \<and>
   fst (handleLogout (b, a)) = authService_logout b \<and>
   app_token (snd (handleLogout (b, a))) = None \<and>
   requests (authService_logout b) = requests b"
  by (simp add: session_defs)

theorem logout_clears_session_witness:
  "currentSession (page_browser page0) = Some (''t0'', ''old@x.io'') \<and>
   currentSession (authService_logout (page_browser page0)) = None \<and>
   requests (authService_logout (page_browser page0)) = []"
  using logout_clears_session [of "page_browser page0"]
  by (simp add: currentSession_def getItem_def page0_def session_keys)

text \<open>
  C10. For a resolved response, \<open>setItem\<close> is called if and only if \<open>ok\<close> is true and the
  token is present and not empty; then the token and the e-mail are stored and the parent
  is told. With \<open>ok\<close> true and the token missing or empty nothing is stored, the parent
  is not told, and the authentication message is shown.
\<close>

theorem session_persisted_iff:
  "(storageCalls (page_browser (handleSubmit em pw (Resolved d) p)) \<noteq> storageCalls (page_browser p))
     = (ok d \<and> truthy (token d)) \<and>
   (ok d \<and> truthy (token d) \<longrightarrow>
      storageCalls (page_browser (handleSubmit em pw (Resolved d) p)) =
        storageCalls (page_browser p) @
          [SetItem TOKEN_KEY (to_string (token d)), SetItem EMAIL_KEY (to_string (email d))] \<and>
      getItem TOKEN_KEY (page_browser (handleSubmit em pw (Resolved d) p)) = token d \<and>
      getItem EMAIL_KEY (page_browser (handleSubmit em pw (Resolved d) p)) = Some (to_string (email d)) \<and>
      error (handleSubmit em pw (Resolved d) p) = None \<and>
      loginSuccess (handleSubmit em pw (Resolved d) p) = loginSuccess p @ [email d]) \<and>
   (ok d \<and> \<not> truthy (token d) \<longrightarrow>
      localStorage (page_browser (handleSubmit em pw (Resolved d) p)) = localStorage (page_browser p) \<and>
      storageCalls (page_browser (handleSubmit em pw (Resolved d) p)) = storageCalls (page_browser p) \<and>
      loginSuccess (handleSubmit em pw (Resolved d) p) = loginSuccess p \<and>
      error (handleSubmit em pw (Resolved d) p) = Some AUTH_FAILED)"
  by (cases "token d") (auto simp add: session_defs session_keys)

theorem session_persisted_iff_witness:
  "ok granted \<and> truthy (token granted) \<and>
   currentSession (page_browser (handleSubmit ''new@x.io'' ''pw'' (Resolved granted) page0))
     = Some (''t1'', ''new@x.io'') \<and>
   ok (granted\<lparr>token := Some []\<rparr>) \<and> \<not> truthy (token (granted\<lparr>token := Some []\<rparr>)) \<and>
   currentSession
     (page_browser (handleSubmit ''new@x.io'' ''pw'' (Resolved (granted\<lparr>token := Some []\<rparr>)) page0))
     = Some (''t0'', ''old@x.io'') \<and>
   error (handleSubmit ''new@x.io'' ''pw'' (Resolved (granted\<lparr>token := Some []\<rparr>)) page0)
     = Some AUTH_FAILED"
proof -
  have h1: "ok granted \<and> truthy (token granted)" by (simp add: granted_def)
  have h2: "ok (granted\<lparr>token := Some []\<rparr>) \<and> \<not> truthy (token (granted\<lparr>token := Some []\<rparr>))"
    by (simp add: granted_def)
  from session_persisted_iff [of "''new@x.io''" "''pw''" granted page0] h1
       session_persisted_iff [of "''new@x.io''" "''pw''" "granted\<lparr>token := Some []\<rparr>" page0] h2
  show ?thesis
    by (simp add: currentSession_def getItem_def page0_def granted_def session_keys)
qed

section \<open>Digits and decimal text\<close>

text \<open>
  The digits of a number read back as the number; \<open>parseFloat\<close> reads a text of digits,
  point and digits as the decimal it shows; so below \<open>10^21\<close> the text \<open>toFixed\<close> returns
  is its argument formatted to \<open>f\<close> decimal places.
\<close>

declare digits.simps [simp del]

lemma digit_char_props:
  assumes "d < 10"
  shows "is_digit (digit_char d)" and "digit_val (digit_char d) = d"
proof -
  from assms have "d \<in> {0, 1, 2, 3, 4, 5, 6, 7, 8, 9}" by auto
  then show "is_digit (digit_char d)" and "digit_val (digit_char d) = d"
    by (auto simp: digit_char_def is_digit_def digit_val_def)
qed

lemma is_digit_not_special:
  "is_digit c \<Longrightarrow> c \<noteq> CHR ''.'' \<and> c \<noteq> CHR ''-'' \<and> c \<noteq> CHR ''+''"
  by (auto simp: is_digit_def)

lemma digits_all: "list_all is_digit (digits n)"
proof (induction n rule: digits.induct)
  case (1 n)
  show ?case
  proof (cases "n < 10")
    case True
    then show ?thesis by (subst digits.simps) (simp add: digit_char_props)
  next
    case False
    with 1 show ?thesis by (subst digits.simps) (simp add: digit_char_props)
  qed
qed

lemma digits_nonempty: "digits n \<noteq> []"
  by (subst digits.simps) simp

lemma digits_val_snoc: "digits_val (ds @ [c]) = 10 * digits_val ds + digit_val c"
  by (simp add: digits_val_def)

lemma digits_val_digits: "digits_val (digits n) = n"
proof (induction n rule: digits.induct)
  case (1 n)
  show ?case
  proof (cases "n < 10")
    case True
    then show ?thesis by (subst digits.simps) (simp add: digits_val_def digit_char_props)
  next
    case False
    with 1 show ?thesis by (subst digits.simps) (simp add: digits_val_snoc digit_char_props)
  qed
qed

lemma digits_val_append: "digits_val (a @ b) = digits_val a * 10 ^ length b + digits_val b"
proof (induction b rule: rev_induct)
  case Nil
  then show ?case by (simp add: digits_val_def)
next
  case (snoc c b)
  have "digits_val (a @ b @ [c]) = 10 * digits_val (a @ b) + digit_val c"
    using digits_val_snoc [of "a @ b" c] by simp
  with snoc show ?case by (simp add: digits_val_snoc algebra_simps)
qed

lemma digits_val_zeros: "digits_val (replicate z (CHR ''0'')) = 0"
  by (induction z) (simp_all add: digits_val_def digit_val_def)

lemma parse_decimal_unsigned:
  assumes "str \<noteq> []" "hd str \<noteq> CHR ''-''" "hd str \<noteq> CHR ''+''"
    and "takeWhile is_digit str = ipart" "dropWhile is_digit str = rest"
    and "(case rest of [] \<Rightarrow> [] | c # cs \<Rightarrow> if c = CHR ''.'' then takeWhile is_digit cs else []) = fpart"
    and "ipart \<noteq> []"
  shows "parse_decimal str = Number (of_nat (digits_val ipart) + of_nat (digits_val fpart) / 10 ^ length fpart)"
proof -
  from assms(1-3) obtain c cs where "str = c # cs" "c \<noteq> CHR ''-''" "c \<noteq> CHR ''+''"
    by (cases str) auto
  then have neg: "(case str of [] \<Rightarrow> False | c # cs \<Rightarrow> c = CHR ''-'') = False"
    and body: "(case str of [] \<Rightarrow> [] | c # cs \<Rightarrow> if c = CHR ''-'' \<or> c = CHR ''+'' then cs else str) = str"
    by simp_all
  show ?thesis
    unfolding parse_decimal_def Let_def neg body assms(4,5,6) using assms(7) by simp
qed

lemma parse_decimal_negative:
  assumes "takeWhile is_digit str = ipart" "dropWhile is_digit str = rest"
    and "(case rest of [] \<Rightarrow> [] | c # cs \<Rightarrow> if c = CHR ''.'' then takeWhile is_digit cs else []) = fpart"
    and "ipart \<noteq> []"
  shows "parse_decimal (CHR ''-'' # str) = Number (- (of_nat (digits_val ipart) + of_nat (digits_val fpart) / 10 ^ length fpart))"
proof -
  have neg: "(case CHR ''-'' # str of [] \<Rightarrow> False | c # cs \<Rightarrow> c = CHR ''-'') = True"
    and body: "(case CHR ''-'' # str of [] \<Rightarrow> [] | c # cs \<Rightarrow> if c = CHR ''-'' \<or> c = CHR ''+'' then cs else CHR ''-'' # str) = str"
    by simp_all
  show ?thesis
    unfolding parse_decimal_def Let_def neg body assms(1,2,3) using assms(4) by simp
qed

lemma parse_decimal_fixed:
  assumes a: "list_all is_digit a" "a \<noteq> []" and b: "list_all is_digit b"
  shows "parse_decimal (a @ ''.'' @ b) = Number (of_nat (digits_val a) + of_nat (digits_val b) / 10 ^ length b)"
    and "parse_decimal (''-'' @ a @ ''.'' @ b) = Number (- (of_nat (digits_val a) + of_nat (digits_val b) / 10 ^ length b))"
    and "parse_decimal a = Number (of_nat (digits_val a))"
    and "parse_decimal (''-'' @ a) = Number (- of_nat (digits_val a))"
proof -
  have "is_digit (hd a)" using a by (cases a) auto
  then have c: "hd a \<noteq> CHR ''-''" "hd a \<noteq> CHR ''+''"
    using is_digit_not_special by auto
  have nd: "\<not> is_digit (CHR ''.'')" by (simp add: is_digit_def)
  have A: "\<And>x. x \<in> set a \<Longrightarrow> is_digit x" using a by (simp add: list_all_iff)
  have B: "\<And>x. x \<in> set b \<Longrightarrow> is_digit x" using b by (simp add: list_all_iff)
  have tw: "takeWhile is_digit (a @ CHR ''.'' # b) = a"
    using A nd by simp
  have dw: "dropWhile is_digit (a @ CHR ''.'' # b) = CHR ''.'' # b"
    using A nd by simp
  have fpart: "(case CHR ''.'' # b of [] \<Rightarrow> [] | c # cs \<Rightarrow> if c = CHR ''.'' then takeWhile is_digit cs else []) = b"
    using B by simp
  have twa: "takeWhile is_digit a = a" "dropWhile is_digit a = []" using A by simp_all
  have fpart0: "(case [] :: string of [] \<Rightarrow> [] | c # cs \<Rightarrow> if c = CHR ''.'' then takeWhile is_digit cs else []) = []"
    by simp
  have hd1: "a @ CHR ''.'' # b \<noteq> []" "hd (a @ CHR ''.'' # b) = hd a" using a(2) by simp_all
  show "parse_decimal (a @ ''.'' @ b) = Number (of_nat (digits_val a) + of_nat (digits_val b) / 10 ^ length b)"
    using parse_decimal_unsigned [OF hd1(1) _ _ tw dw fpart a(2)] c hd1(2) by simp
  show "parse_decimal (''-'' @ a @ ''.'' @ b) = Number (- (of_nat (digits_val a) + of_nat (digits_val b) / 10 ^ length b))"
    using parse_decimal_negative [OF tw dw fpart a(2)] by simp
  show "parse_decimal a = Number (of_nat (digits_val a))"
    using parse_decimal_unsigned [OF a(2) c twa fpart0 a(2)] by (simp add: digits_val_def)
  show "parse_decimal (''-'' @ a) = Number (- of_nat (digits_val a))"
    using parse_decimal_negative [OF twa fpart0 a(2)] by (simp add: digits_val_def)
qed

lemma digits_val_padded: "digits_val (replicate z (CHR ''0'') @ digits n) = n"
  by (simp add: digits_val_append digits_val_zeros digits_val_digits)

lemma decimals_shown_point:
  assumes "list_all (\<lambda>c. c \<noteq> CHR ''.'') pre" "list_all is_digit b"
  shows "decimals_shown (pre @ ''.'' @ b) = length b"
proof -
  have P: "\<And>x. x \<in> set pre \<Longrightarrow> x \<noteq> CHR ''.''" using assms(1) by (simp add: list_all_iff)
  have B: "\<And>x. x \<in> set b \<Longrightarrow> is_digit x" using assms(2) by (simp add: list_all_iff)
  have dw: "dropWhile (\<lambda>c. c \<noteq> CHR ''.'') (pre @ CHR ''.'' # b) = CHR ''.'' # b"
    using P by simp
  have tw: "takeWhile is_digit b = b" using B by simp
  show ?thesis by (simp add: decimals_shown_def dw tw)
qed

lemma decimals_shown_none:
  assumes "list_all (\<lambda>c. c \<noteq> CHR ''.'') pre"
  shows "decimals_shown pre = 0"
proof -
  have P: "\<And>x. x \<in> set pre \<Longrightarrow> x \<noteq> CHR ''.''" using assms(1) by (simp add: list_all_iff)
  then have dw: "dropWhile (\<lambda>c. c \<noteq> CHR ''.'') pre = []" by simp
  show ?thesis by (simp add: decimals_shown_def dw)
qed

lemma digits_no_point: "list_all is_digit ds \<Longrightarrow> list_all (\<lambda>c. c \<noteq> CHR ''.'') ds"
  using is_digit_not_special by (auto simp: list_all_iff)

lemma to_decimals_cases:
  "to_decimals f x = (if x < 0 then - (of_nat (nat \<lfloor>\<bar>x\<bar> * 10 ^ f + 1 / 2\<rfloor>) / 10 ^ f)
                      else of_nat (nat \<lfloor>\<bar>x\<bar> * 10 ^ f + 1 / 2\<rfloor>) / 10 ^ f)"
proof -
  define y where "y = \<lfloor>\<bar>x\<bar> * 10 ^ f + 1 / 2\<rfloor>"
  have "0 \<le> y" by (simp add: y_def)
  then have nn: "(of_nat (nat y) :: rat) = of_int y" by simp
  have "\<lfloor>(1::rat) / 2\<rfloor> = 0" by (rule floor_unique) simp_all
  then have z: "x = 0 \<Longrightarrow> y = 0" by (simp add: y_def)
  have "to_decimals f x = (if x < 0 then - (of_int y / 10 ^ f) else of_int y / 10 ^ f)"
    using z by (cases "x = 0") (auto simp: to_decimals_def sgn_if y_def [symmetric])
  then show ?thesis unfolding y_def [symmetric] nn .
qed

lemma toFixed_renders:
  assumes "\<bar>x\<bar> < 10 ^ 21"
  shows "renders f x (toFixed f x)"
proof -
  define n where "n = nat \<lfloor>\<bar>x\<bar> * 10 ^ f + 1 / 2\<rfloor>"
  define m where "m = digits n"
  define padded where "padded = (if length m \<le> f then replicate (f + 1 - length m) (CHR ''0'') @ m else m)"
  define k where "k = length padded"
  define sg where "sg = (if x < 0 then ''-'' else [])"
  have tf: "toFixed f x = FixedNotation (sg @ (if f \<noteq> 0 then take (k - f) padded @ ''.'' @ drop (k - f) padded else m))"
    using assms by (simp add: toFixed_def Let_def n_def m_def padded_def k_def sg_def)
  have m_digits: "list_all is_digit m" and m_val: "digits_val m = n" and m_ne: "m \<noteq> []"
    by (simp_all add: m_def digits_all digits_val_digits digits_nonempty)
  have td: "to_decimals f x = (if x < 0 then - (of_nat n / 10 ^ f) else of_nat n / 10 ^ f)"
    by (simp add: to_decimals_cases n_def)
  have sg_np: "list_all (\<lambda>c. c \<noteq> CHR ''.'') sg" by (simp add: sg_def)
  show ?thesis
  proof (cases "f = 0")
    case True
    have v: "parse_decimal (sg @ m) = Number (to_decimals f x)"
      using parse_decimal_fixed(3,4) [OF m_digits m_ne, of "[]"] td True
      by (simp add: sg_def m_val)
    have "decimals_shown (sg @ m) = 0"
      using decimals_shown_none [of "sg @ m"] sg_np digits_no_point [OF m_digits] by simp
    with v True tf show ?thesis by simp
  next
    case False
    have p_digits: "list_all is_digit padded"
      using m_digits by (simp add: padded_def is_digit_def list_all_iff)
    have p_val: "digits_val padded = n"
      using m_val digits_val_padded [of "f + 1 - length m" n] by (simp add: padded_def m_def)
    have p_len: "f < k" by (simp add: k_def padded_def)
    define a where "a = take (k - f) padded"
    define b where "b = drop (k - f) padded"
    have ab: "a @ b = padded" by (simp add: a_def b_def)
    have lb: "length b = f" using p_len by (simp add: b_def k_def)
    have a_ne: "a \<noteq> []" using p_len by (auto simp add: a_def k_def)
    have a_digits: "list_all is_digit a" and b_digits: "list_all is_digit b"
      using p_digits ab [symmetric] by simp_all
    have "digits_val a * 10 ^ f + digits_val b = n"
      using digits_val_append [of a b] ab lb p_val by simp
    then have "of_nat (digits_val a) * 10 ^ f + of_nat (digits_val b) = (of_nat n :: rat)"
      by (metis of_nat_add of_nat_mult of_nat_numeral of_nat_power)
    then have val: "of_nat (digits_val a) + of_nat (digits_val b) / 10 ^ length b = (of_nat n :: rat) / 10 ^ f"
      by (simp add: lb field_simps)
    have v: "parse_decimal (sg @ a @ ''.'' @ b) = Number (to_decimals f x)"
      using parse_decimal_fixed(1,2) [OF a_digits a_ne b_digits] td val
      by (simp add: sg_def)
    have "decimals_shown ((sg @ a) @ ''.'' @ b) = length b"
      by (rule decimals_shown_point) (simp_all add: sg_np digits_no_point a_digits b_digits)
    with v False tf lb show ?thesis by (simp add: a_def b_def)
  qed
qed



text \<open>Evaluation of \<open>digits\<close> and of the floor of a quotient on numerals.\<close>

lemma digits_numeral:
  "digits (numeral v) =
     (if (numeral v :: nat) < 10 then [digit_char (numeral v)]
      else digits (numeral v div 10) @ [digit_char (numeral v mod 10)])"
  by (rule digits.simps)

lemma digits_small: "digits 0 = ''0''" "digits (Suc 0) = ''1''"
  by (simp_all add: digits.simps digit_char_def)

lemma floor_rat_numeral: "\<lfloor>(numeral a / numeral b :: rat)\<rfloor> = numeral a div numeral b"
  by (metis floor_divide_of_int_eq of_int_numeral)

section \<open>The derived views' properties\<close>

lemma slice_negative: "0 < n \<Longrightarrow> slice (- int n) xs = drop (length xs - n) xs"
  by (auto simp: slice_def Let_def max_def nat_diff_distrib')


lemma slice_10: "slice (- 10) xs = drop (length xs - 10) xs"
  using slice_negative [of 10 xs] by simp




text \<open>
  C5. On a sequence of at least 10 records the log shows exactly 10 rows, the last 10
  records in reversed order, so the last record comes first; when the sequence ascends by
  timestamp no record is more recent than the first row, and the rows descend.
\<close>

theorem recentLog_last_ten_reversed:
  "10 \<le> length metrics \<Longrightarrow>
     length (recentLog metrics) = 10 \<and>
     recentLog metrics = rev (drop (length metrics - 10) metrics) \<and>
     (\<forall>i<10. recentLog metrics ! i = metrics ! (length metrics - 1 - i)) \<and>
     hd (recentLog metrics) = last metrics \<and>
     (ascending metrics \<longrightarrow>
        (\<forall>m\<in>set metrics. or_zero (timestampMs m) \<le> or_zero (timestampMs (hd (recentLog metrics)))) \<and>
        sorted_wrt (\<lambda>a b. or_zero (timestampMs b) \<le> or_zero (timestampMs a)) (recentLog metrics))"
proof -
  assume long: "10 \<le> length metrics"
  have eq: "recentLog metrics = rev (drop (length metrics - 10) metrics)"
    by (simp add: recentLog_def slice_10)
  have len: "length (recentLog metrics) = 10"
    using long by (simp add: eq)
  have nth: "\<forall>i<10. recentLog metrics ! i = metrics ! (length metrics - 1 - i)"
    using long by (auto simp: eq rev_nth)
  have ne: "metrics \<noteq> []" using long by auto
  have hd: "hd (recentLog metrics) = last metrics"
    using long by (simp add: eq hd_rev)
  have asc: "ascending metrics \<longrightarrow>
           (\<forall>m\<in>set metrics. or_zero (timestampMs m) \<le> or_zero (timestampMs (hd (recentLog metrics)))) \<and>
           sorted_wrt (\<lambda>a b. or_zero (timestampMs b) \<le> or_zero (timestampMs a)) (recentLog metrics)"
  proof
    assume asc: "ascending metrics"
    from ne obtain ys y where snoc: "metrics = ys @ [y]"
      by (cases metrics rule: rev_cases) auto
    have top: "hd (recentLog metrics) = y" using hd snoc by simp
    have "\<forall>m\<in>set metrics. or_zero (timestampMs m) \<le> or_zero (timestampMs y)"
      using asc unfolding ascending_def snoc by (auto simp: sorted_wrt_append)
    then have 1: "\<forall>m\<in>set metrics. or_zero (timestampMs m) \<le> or_zero (timestampMs (hd (recentLog metrics)))"
      by (simp add: top)
    have 2: "sorted_wrt (\<lambda>a b. or_zero (timestampMs b) \<le> or_zero (timestampMs a)) (recentLog metrics)"
      using asc by (simp add: eq sorted_wrt_rev ascending_def)
    from 1 2 show "(\<forall>m\<in>set metrics. or_zero (timestampMs m) \<le> or_zero (timestampMs (hd (recentLog metrics)))) \<and>
           sorted_wrt (\<lambda>a b. or_zero (timestampMs b) \<le> or_zero (timestampMs a)) (recentLog metrics)" by simp
  qed
  from len eq nth hd asc show ?thesis by blast
qed

theorem recentLog_last_ten_reversed_witness:
  "10 \<le> length twelve \<and> ascending twelve \<and>
   map timestampMs (recentLog twelve) =
     map Some [12000, 11000, 10000, 9000, 8000, 7000, 6000, 5000, 4000, 3000]"
proof -
  have h: "10 \<le> length twelve" by (simp add: twelve_def)
  have a: "ascending twelve"
    by (simp add: ascending_def twelve_def sample_def blank_def)
  from recentLog_last_ten_reversed [OF h] h a
  show ?thesis by (simp add: twelve_def sample_def blank_def)
qed

subsection \<open>The sorted sequence\<close>

lemma insert_by_timestamp:
  "insert_by by_timestamp x ys = insort_key (\<lambda>m. or_zero (timestampMs m)) x ys"
  by (induction ys) (simp_all add: by_timestamp_def)

lemma Array_sort_by_timestamp:
  "Array_sort by_timestamp xs = sort_key (\<lambda>m. or_zero (timestampMs m)) xs"
proof -
  have "insert_by by_timestamp = insort_key (\<lambda>m. or_zero (timestampMs m))"
    by (intro ext) (rule insert_by_timestamp)
  then show ?thesis by (simp add: Array_sort_def sort_key_def)
qed

lemma mset_insert_by: "mset (insert_by cmp x ys) = add_mset x (mset ys)"
  by (induction ys) simp_all

lemma mset_Array_sort: "mset (Array_sort cmp xs) = mset xs"
  by (induction xs) (simp_all add: Array_sort_def mset_insert_by)

lemma set_insert_by: "set (insert_by cmp x ys) = insert x (set ys)"
  by (induction ys) auto

lemma ascending_insert_by:
  "ascending ys \<Longrightarrow> ascending (insert_by by_timestamp x ys)"
  by (induction ys) (auto simp: ascending_def by_timestamp_def set_insert_by)

lemma ascending_Array_sort: "ascending (Array_sort by_timestamp xs)"
proof (induction xs)
  case Nil
  show ?case by (simp add: Array_sort_def ascending_def)
next
  case (Cons x xs)
  then show ?case using ascending_insert_by [of "Array_sort by_timestamp xs" x]
    by (simp add: Array_sort_def)
qed

lemma mset_Object_entries: "mset (Object_entries obj) = mset obj"
  by (simp add: Object_entries_def multiset_partition [symmetric])

lemma mset_Object_values: "mset (Object_values obj) = mset (map snd obj)"
proof -
  have "mset (map snd (Object_entries obj)) = image_mset snd (mset (Object_entries obj))" by simp
  then show ?thesis by (simp add: Object_values_def mset_Object_entries)
qed

text \<open>
  C2. For every response object, the sequence handed to the views is a permutation of the
  object's values and ascends by timestamp, a missing timestamp counting as 0; records of
  equal timestamp keep the order \<open>Object.values\<close> lists them in.
\<close>

theorem metricsArray_sorted_permutation:
  "mset (metricsArray data) = mset (map snd data) \<and>
   ascending (metricsArray data) \<and>
   metricsArray data = sort_key (\<lambda>m. or_zero (timestampMs m)) (Object_values data)"
proof -
  have perm: "mset (metricsArray data) = mset (map snd data)"
    unfolding metricsArray_def by (simp only: mset_Array_sort mset_Object_values)
  have asc: "ascending (metricsArray data)"
    unfolding metricsArray_def by (rule ascending_Array_sort)
  have stable: "metricsArray data = sort_key (\<lambda>m. or_zero (timestampMs m)) (Object_values data)"
    unfolding metricsArray_def by (rule Array_sort_by_timestamp)
  from perm asc stable show ?thesis by blast
qed

theorem metricsArray_sorted_permutation_witness:
  "Object_values data0 = [sample 7 , blank, sample 3, sample 2] \<and>
   metricsArray data0 = [blank, sample 2, sample 3, sample 7] \<and>
   mset (metricsArray data0) = mset (map snd data0) \<and>
   ascending (metricsArray data0)"
proof -
  have idx: "is_array_index ''7''" "is_array_index ''10''" "\<not> is_array_index ''-Nb''" "\<not> is_array_index ''-Na''"
    by (simp_all add: is_array_index_def is_digit_def digits_val_def digit_val_def)
  have v: "Object_values data0 = [sample 7, blank, sample 3, sample 2]"
    by (simp add: Object_values_def Object_entries_def data0_def idx digits_val_def digit_val_def)
  have k: "or_zero (timestampMs blank) = 0" "or_zero (timestampMs (sample 2)) = 2000"
    "or_zero (timestampMs (sample 3)) = 3000" "or_zero (timestampMs (sample 7)) = 7000"
    by (simp_all add: sample_def blank_def)
  have s: "metricsArray data0 = [blank, sample 2, sample 3, sample 7]"
    by (simp add: metricsArray_def v Array_sort_def by_timestamp_def k)
  from metricsArray_sorted_permutation [of data0]
  have "mset (metricsArray data0) = mset (map snd data0) \<and> ascending (metricsArray data0)"
    by blast
  with v s show ?thesis by blast
qed

subsection \<open>The method table\<close>

lemma first_seen_snoc:
  "first_seen (xs @ [x]) = (if x \<in> set (first_seen xs) then first_seen xs else first_seen xs @ [x])"
  by (simp add: first_seen_def)

lemma set_first_seen: "set (first_seen xs) = set xs"
  by (induction xs rule: rev_induct) (auto simp: first_seen_snoc, simp add: first_seen_def)

lemma distinct_first_seen: "distinct (first_seen xs)"
  by (induction xs rule: rev_induct) (simp_all add: first_seen_snoc, simp add: first_seen_def)

lemma map_of_tallies:
  "map_of (tallies labels ks) k = (if k \<in> set ks then Some (Count (count_list labels k)) else None)"
  by (induction ks) (simp_all add: tallies_def)

lemma update_tallies_new:
  "l \<notin> set ks \<Longrightarrow> l \<notin> set labels \<Longrightarrow>
     AList.update l (Count (Suc 0)) (tallies labels ks) = tallies (labels @ [l]) (ks @ [l])"
  by (induction ks) (auto simp: tallies_def)

lemma update_tallies_old:
  "l \<in> set ks \<Longrightarrow> distinct ks \<Longrightarrow>
     AList.update l (Count (Suc (count_list labels l))) (tallies labels ks) = tallies (labels @ [l]) ks"
proof (induction ks)
  case Nil
  then show ?case by simp
next
  case (Cons k ks)
  show ?case
  proof (cases "k = l")
    case True
    with Cons.prems have "l \<notin> set ks" by simp
    then have "tallies (labels @ [l]) ks = tallies labels ks"
      by (auto simp: tallies_def)
    with True show ?thesis by (simp add: tallies_def)
  next
    case False
    with Cons show ?thesis by (simp add: tallies_def)
  qed
qed

lemma count_method_step:
  assumes "method_label m \<notin> set Object_prototype_names"
  shows "count_method (tallies labels (first_seen labels)) m =
           tallies (labels @ [method_label m]) (first_seen (labels @ [method_label m]))"
proof -
  define l where "l = method_label m"
  have np: "l \<noteq> ''__proto__''" using assms by (auto simp: l_def Object_prototype_names_def)
  have nn: "l \<notin> set Object_prototype_names" using assms by (simp add: l_def)
  show ?thesis
  proof (cases "l \<in> set labels")
    case True
    then have "count_method (tallies labels (first_seen labels)) m =
        AList.update l (Count (Suc (count_list labels l))) (tallies labels (first_seen labels))"
      using np by (simp add: count_method_def l_def [symmetric]
          assign_def bump_def map_of_tallies set_first_seen)
    also have "\<dots> = tallies (labels @ [l]) (first_seen labels)"
      using True by (simp add: update_tallies_old set_first_seen distinct_first_seen)
    finally show ?thesis using True by (simp add: l_def [symmetric] first_seen_snoc set_first_seen)
  next
    case False
    then have "count_method (tallies labels (first_seen labels)) m =
        AList.update l (Count (Suc 0)) (tallies labels (first_seen labels))"
      using np nn by (simp add: count_method_def l_def [symmetric]
          assign_def bump_def map_of_tallies set_first_seen)
    also have "\<dots> = tallies (labels @ [l]) (first_seen labels @ [l])"
      using False by (simp add: update_tallies_new set_first_seen)
    finally show ?thesis using False by (simp add: l_def [symmetric] first_seen_snoc set_first_seen)
  qed
qed

lemma counts_are_tallies:
  "\<forall>m\<in>set metrics. method_label m \<notin> set Object_prototype_names \<Longrightarrow>
     foldl count_method [] metrics =
       tallies (map method_label metrics) (first_seen (map method_label metrics))"
proof (induction metrics rule: rev_induct)
  case Nil
  show ?case by (simp add: tallies_def first_seen_def)
next
  case (snoc m metrics)
  then show ?case by (simp add: count_method_step)
qed


lemma fst_tallies: "map fst (tallies labels ks) = ks"
  by (simp add: tallies_def comp_def)

lemma keys_listed:
  "set (sort_key f (filter P ks) @ filter (\<lambda>k. \<not> P k) ks) = set ks"
  "distinct ks \<Longrightarrow> distinct (sort_key f (filter P ks) @ filter (\<lambda>k. \<not> P k) ks)"
  by auto

lemma Object_entries_tallies:
  "Object_entries (tallies labels ks) =
     tallies labels (sort_key digits_val (filter is_array_index ks) @ filter (\<lambda>k. \<not> is_array_index k) ks)"
proof -
  have f1: "filter (\<lambda>p. is_array_index (fst p)) (tallies labels ks) = tallies labels (filter is_array_index ks)"
    by (induction ks) (simp_all add: tallies_def)
  have f2: "filter (\<lambda>p. \<not> is_array_index (fst p)) (tallies labels ks) = tallies labels (filter (\<lambda>k. \<not> is_array_index k) ks)"
    by (induction ks) (simp_all add: tallies_def)
  have ins: "\<And>k js. insort_key (\<lambda>p. digits_val (fst p)) (k, Count (count_list labels k)) (tallies labels js)
      = tallies labels (insort_key digits_val k js)"
    subgoal for k js by (induction js) (simp_all add: tallies_def)
    done
  have srt: "\<And>js. sort_key (\<lambda>p. digits_val (fst p)) (tallies labels js) = tallies labels (sort_key digits_val js)"
    subgoal for js
    proof (induction js)
      case Nil
      show ?case by (simp add: tallies_def)
    next
      case (Cons j js)
      have "sort_key (\<lambda>p. digits_val (fst p)) (tallies labels (j # js)) =
          insort_key (\<lambda>p. digits_val (fst p)) (j, Count (count_list labels j))
            (sort_key (\<lambda>p. digits_val (fst p)) (tallies labels js))"
        by (simp add: tallies_def)
      also have "\<dots> = tallies labels (insort_key digits_val j (sort_key digits_val js))"
        by (simp only: Cons.IH ins)
      finally show ?case by simp
    qed
    done
  show ?thesis
    by (simp add: Object_entries_def f1 f2 srt) (simp add: tallies_def)
qed

text \<open>
  C4, as the code has it. A record's label is its method, or \<open>UNKNOWN\<close> when the method
  is missing or empty. When no label is a name that \<open>{}\<close> inherits from
  \<open>Object.prototype\<close>, the table gives each distinct label the number of records with
  that label, once; the labels that are array indices come first, in ascending numeric
  order, and the others follow in order of first occurrence. So with no array index among
  the labels the table is in order of first occurrence.
\<close>

theorem methodData_counts:
  "\<forall>m\<in>set metrics. method_label m \<notin> set Object_prototype_names \<Longrightarrow>
     methodData metrics =
       tallies (map method_label metrics)
         (sort_key digits_val (filter is_array_index (first_seen (map method_label metrics))) @
          filter (\<lambda>k. \<not> is_array_index k) (first_seen (map method_label metrics))) \<and>
     set (map fst (methodData metrics)) = set (map method_label metrics) \<and>
     distinct (map fst (methodData metrics)) \<and>
     ((\<forall>m\<in>set metrics. \<not> is_array_index (method_label m)) \<longrightarrow>
        methodData metrics = tallies (map method_label metrics) (first_seen (map method_label metrics)))"
proof -
  assume plain: "\<forall>m\<in>set metrics. method_label m \<notin> set Object_prototype_names"
  define labels where "labels = map method_label metrics"
  have full: "methodData metrics =
       tallies labels
         (sort_key digits_val (filter is_array_index (first_seen labels)) @
          filter (\<lambda>k. \<not> is_array_index k) (first_seen labels))"
    unfolding labels_def
    by (simp only: methodData_def counts_are_tallies [OF plain] Object_entries_tallies)
  have keys: "set (map fst (methodData metrics)) = set labels"
    unfolding full fst_tallies by (simp only: keys_listed(1) set_first_seen)
  have dist: "distinct (map fst (methodData metrics))"
    unfolding full fst_tallies by (rule keys_listed(2)) (rule distinct_first_seen)
  have "(\<forall>m\<in>set metrics. \<not> is_array_index (method_label m)) \<longrightarrow>
        methodData metrics = tallies labels (first_seen labels)"
  proof
    assume "\<forall>m\<in>set metrics. \<not> is_array_index (method_label m)"
    then have no: "\<forall>k\<in>set (first_seen labels). \<not> is_array_index k"
      by (simp add: set_first_seen labels_def)
    then have "filter is_array_index (first_seen labels) = []"
      and "filter (\<lambda>k. \<not> is_array_index k) (first_seen labels) = first_seen labels"
      by (simp_all add: filter_empty_conv)
    with full show "methodData metrics = tallies labels (first_seen labels)"
      by simp
  qed
  with full keys dist show ?thesis unfolding labels_def by blast
qed

theorem methodData_counts_witness:
  "map method_label four = [''GET'', ''GET'', ''POST'', ''UNKNOWN''] \<and>
   methodData four = [(''GET'', Count 2), (''POST'', Count 1), (''UNKNOWN'', Count 1)]"
proof -
  have l: "map method_label four = [''GET'', ''GET'', ''POST'', ''UNKNOWN'']"
    by (simp add: four_def with_method_def blank_def method_label_def)
  have h: "\<forall>m\<in>set four. method_label m \<notin> set Object_prototype_names"
    by (simp add: four_def with_method_def blank_def method_label_def Object_prototype_names_def)
  have n: "\<forall>m\<in>set four. \<not> is_array_index (method_label m)"
    by (simp add: four_def with_method_def blank_def method_label_def is_array_index_def is_digit_def)
  from methodData_counts [OF h] n
  have "methodData four = tallies (map method_label four) (first_seen (map method_label four))"
    by blast
  then show ?thesis
    by (simp add: l tallies_def first_seen_def)
qed

text \<open>
  C4 as stated fails: of the methods \<open>GET\<close> and \<open>1\<close>, seen in this order, the table
  lists \<open>1\<close> first; and the one record of method \<open>constructor\<close> gets a text, not the
  number 1.
\<close>

theorem methodData_index_first:
  "map method_label [with_method ''GET'', with_method ''1''] = [''GET'', ''1''] \<and>
   first_seen [''GET'', ''1''] = [''GET'', ''1''] \<and>
   methodData [with_method ''GET'', with_method ''1''] = [(''1'', Count 1), (''GET'', Count 1)] \<and>
   methodData [with_method ''constructor''] = [(''constructor'', NativeText ''constructor'' 1)]"
proof -
  have idx: "is_array_index ''1''" "\<not> is_array_index ''GET''" "\<not> is_array_index ''constructor''"
    by (simp_all add: is_array_index_def is_digit_def digits_val_def digit_val_def)
  show ?thesis
    by (simp add: methodData_def count_method_def assign_def bump_def Object_entries_def idx
        with_method_def blank_def method_label_def first_seen_def Object_prototype_names_def
        Let_def)
qed

section \<open>Double arithmetic's properties\<close>

text \<open>
  Powers of two, the bounds of a binade, and the distance of a rounded number from the
  exact one: half a unit in the last place, which is at most \<open>|x| / 2^53 + 2^-1075\<close>.
\<close>

lemma pow2_powi: "pow2 k = 2 powi k"
  by (simp add: pow2_def power_int_def power_one_over [symmetric] inverse_eq_divide)

lemma pow2_pos: "0 < pow2 k"
  by (simp add: pow2_powi)

lemma pow2_add: "pow2 (a + b) = pow2 a * pow2 b"
  by (simp add: pow2_powi power_int_add)

lemma pow2_succ: "pow2 (k + 1) = 2 * pow2 k"
  by (simp add: pow2_add) (simp add: pow2_def)

lemma pow2_pred: "pow2 (k - 1) = pow2 k / 2"
  using pow2_succ [of "k - 1"] by simp

lemma pow2_mono: "a \<le> b \<Longrightarrow> pow2 a \<le> pow2 b"
  by (simp add: pow2_powi power_int_increasing)

lemma binade_bounds: "0 < x \<Longrightarrow> pow2 (binade x) \<le> x \<and> x < pow2 (binade x + 1)"
proof (induction x rule: binade.induct)
  case (1 x)
  show ?case
  proof (cases "x < 1")
    case True
    with 1 have ih: "pow2 (binade (2 * x)) \<le> 2 * x \<and> 2 * x < pow2 (binade (2 * x) + 1)"
      by simp
    have b: "binade x = binade (2 * x) - 1"
      using "1.prems" True by (subst binade.simps) simp
    show ?thesis
      using ih unfolding b by (simp add: pow2_pred pow2_succ)
  next
    case False
    show ?thesis
    proof (cases "2 \<le> x")
      case True
      with 1 False have ih: "pow2 (binade (x / 2)) \<le> x / 2 \<and> x / 2 < pow2 (binade (x / 2) + 1)"
        by simp
      have b: "binade x = binade (x / 2) + 1"
        using "1.prems" False True by (subst binade.simps) simp
      have "pow2 (binade (x / 2) + 1 + 1) = 2 * pow2 (binade (x / 2) + 1)"
        by (rule pow2_succ)
      then show ?thesis
        using ih unfolding b by (simp add: pow2_succ)
    next
      case nt: False
      have b: "binade x = 0"
        using "1.prems" False nt by (subst binade.simps) simp
      show ?thesis using False nt unfolding b by (simp add: pow2_def)
    qed
  qed
qed

lemma round_half_even_error: "\<bar>of_int (round_half_even q) - q\<bar> \<le> 1 / 2"
proof -
  have "of_int \<lfloor>q\<rfloor> \<le> q" "q < of_int \<lfloor>q\<rfloor> + 1" by linarith+
  then show ?thesis
    by (auto simp: round_half_even_def Let_def abs_le_iff)
qed

lemma round_half_even_nonneg: "0 \<le> q \<Longrightarrow> 0 \<le> round_half_even q"
  by (auto simp: round_half_even_def Let_def)

text \<open>Evaluation of \<open>binade\<close> and \<open>to_double\<close> on numerals.\<close>

lemma binade_quotient:
  "binade (numeral a / numeral b) =
     (if numeral a / numeral b \<le> (0::rat) then 0
      else if numeral a / numeral b < (1::rat) then binade (2 * (numeral a / numeral b)) - 1
      else if (2::rat) \<le> numeral a / numeral b then binade (numeral a / numeral b / 2) + 1
      else 0)"
  by (rule binade.simps)

lemma binade_numeral:
  "binade (numeral a) =
     (if numeral a \<le> (0::rat) then 0
      else if numeral a < (1::rat) then binade (2 * numeral a) - 1
      else if (2::rat) \<le> numeral a then binade (numeral a / 2) + 1
      else 0)"
  by (rule binade.simps)

lemma binade_one: "binade 1 = 0"
  by (subst binade.simps) simp

lemmas double_eval =
  to_double_def Let_def binade_quotient binade_numeral binade_one pow2_def
  round_half_even_def floor_rat_numeral


lemma to_double_zero: "to_double 0 = Finite 0"
  by (simp add: to_double_def)

text \<open>The rounded magnitude and its distance from the number.\<close>

lemma rounding_step:
  assumes "x \<noteq> 0"
  defines "e \<equiv> max (binade \<bar>x\<bar>) (- 1022)"
  defines "y \<equiv> of_int (round_half_even (\<bar>x\<bar> / pow2 (e - 52))) * pow2 (e - 52)"
  shows "\<bar>y - \<bar>x\<bar>\<bar> \<le> pow2 (e - 53)"
    and "0 \<le> y"
    and "to_double x =
          (if pow2 1024 \<le> y then (if x < 0 then NegInfinity else PosInfinity)
           else Finite (if x < 0 then - y else y))"
proof -
  define u where "u = pow2 (e - 52)"
  have up: "0 < u" by (simp add: u_def pow2_pos)
  define n where "n = round_half_even (\<bar>x\<bar> / u)"
  have "\<bar>of_int n - \<bar>x\<bar> / u\<bar> \<le> 1 / 2"
    unfolding n_def by (rule round_half_even_error)
  then have s1: "\<bar>of_int n - \<bar>x\<bar> / u\<bar> * u \<le> 1 / 2 * u"
    using up by (simp add: mult_right_mono)
  have s2: "\<bar>of_int n - \<bar>x\<bar> / u\<bar> * u = \<bar>of_int n * u - \<bar>x\<bar>\<bar>"
  proof -
    have "\<bar>of_int n - \<bar>x\<bar> / u\<bar> * u = \<bar>(of_int n - \<bar>x\<bar> / u) * u\<bar>"
      using up by (simp add: abs_mult)
    also have "(of_int n - \<bar>x\<bar> / u) * u = of_int n * u - \<bar>x\<bar>"
      using up by (simp add: field_simps)
    finally show ?thesis .
  qed
  have s3: "1 / 2 * u = pow2 (e - 53)"
    using pow2_pred [of "e - 52"] by (simp add: u_def)
  from s1 have "\<bar>of_int n * u - \<bar>x\<bar>\<bar> \<le> pow2 (e - 53)"
    unfolding s2 s3 .
  then show "\<bar>y - \<bar>x\<bar>\<bar> \<le> pow2 (e - 53)"
    unfolding y_def n_def u_def .
  have "0 \<le> n" unfolding n_def using up by (intro round_half_even_nonneg) simp
  then show "0 \<le> y" using up by (simp add: y_def n_def [symmetric] u_def [symmetric])
  show "to_double x =
          (if pow2 1024 \<le> y then (if x < 0 then NegInfinity else PosInfinity)
           else Finite (if x < 0 then - y else y))"
    using assms(1) by (simp add: to_double_def Let_def y_def e_def)
qed

lemma half_ulp_bound:
  assumes "x \<noteq> 0"
  shows "pow2 (max (binade \<bar>x\<bar>) (- 1022) - 53) \<le> \<bar>x\<bar> / 2 ^ 53 + 1 / 2 ^ 1075"
proof (cases "- 1022 \<le> binade \<bar>x\<bar>")
  case True
  then have m: "max (binade \<bar>x\<bar>) (- 1022) = binade \<bar>x\<bar>" by simp
  have "pow2 (binade \<bar>x\<bar>) \<le> \<bar>x\<bar>" using binade_bounds [of "\<bar>x\<bar>"] assms by simp
  moreover have "pow2 (binade \<bar>x\<bar> - 53) = pow2 (binade \<bar>x\<bar>) / 2 ^ 53"
    using pow2_add [of "binade \<bar>x\<bar>" "- 53"] by (simp add: pow2_def)
  ultimately have "pow2 (binade \<bar>x\<bar> - 53) \<le> \<bar>x\<bar> / 2 ^ 53"
    by (simp add: divide_right_mono)
  then show ?thesis unfolding m by (simp add: add_increasing2)
next
  case False
  then have m: "max (binade \<bar>x\<bar>) (- 1022) = - 1022" by simp
  have "pow2 (- 1022 - 53) = 1 / 2 ^ 1075" by (simp add: pow2_def)
  then show ?thesis unfolding m by (simp add: add_increasing)
qed

lemma to_double_error:
  assumes "to_double x = Finite y"
  shows "\<bar>y - x\<bar> \<le> \<bar>x\<bar> / 2 ^ 53 + 1 / 2 ^ 1075"
proof (cases "x = 0")
  case True
  with assms show ?thesis by (simp add: to_double_zero)
next
  case False
  define e where "e = max (binade \<bar>x\<bar>) (- 1022)"
  define z where "z = of_int (round_half_even (\<bar>x\<bar> / pow2 (e - 52))) * pow2 (e - 52)"
  note R = rounding_step [OF False, folded e_def, folded z_def]
  from R(3) assms have y: "y = (if x < 0 then - z else z)"
    by (auto split: if_splits)
  have "\<bar>y - x\<bar> = \<bar>z - \<bar>x\<bar>\<bar>"
    using R(2) by (auto simp: y abs_if)
  also have "\<dots> \<le> pow2 (e - 53)" by (rule R(1))
  also have "\<dots> \<le> \<bar>x\<bar> / 2 ^ 53 + 1 / 2 ^ 1075"
    unfolding e_def by (rule half_ulp_bound [OF False])
  finally show ?thesis .
qed

lemma to_double_finite:
  assumes "\<bar>x\<bar> \<le> 2 ^ 1023"
  shows "\<exists>y. to_double x = Finite y"
proof (cases "x = 0")
  case True
  then show ?thesis by (simp add: to_double_zero)
next
  case False
  define e where "e = max (binade \<bar>x\<bar>) (- 1022)"
  define z where "z = of_int (round_half_even (\<bar>x\<bar> / pow2 (e - 52))) * pow2 (e - 52)"
  note R = rounding_step [OF False, folded e_def, folded z_def]
  have "z \<le> \<bar>x\<bar> + pow2 (e - 53)" using R(1) by (simp add: abs_le_iff)
  also have "pow2 (e - 53) \<le> \<bar>x\<bar> / 2 ^ 53 + 1 / 2 ^ 1075"
    unfolding e_def by (rule half_ulp_bound [OF False])
  finally have "z \<le> \<bar>x\<bar> + \<bar>x\<bar> / 2 ^ 53 + 1 / 2 ^ 1075" by simp
  also have "\<dots> \<le> 2 ^ 1023 + 2 ^ 1023 / 2 ^ 53 + 1 / 2 ^ 1075"
    using assms by (simp add: add_mono divide_right_mono)
  also have "\<dots> < 2 ^ 1024" by simp
  finally have "\<not> pow2 1024 \<le> z" by (simp add: pow2_def)
  with R(3) show ?thesis by simp
qed

text \<open>A whole number below \<open>2^53\<close> in magnitude is a double.\<close>

lemma round_half_even_int: "round_half_even (of_int m) = m"
  by (simp add: round_half_even_def)

lemma to_double_whole:
  assumes "\<bar>k\<bar> < 2 ^ 53"
  shows "to_double (of_int k) = Finite (of_int k)"
proof (cases "k = 0")
  case True
  then show ?thesis by (simp add: to_double_zero)
next
  case False
  define x :: rat where "x = of_int k"
  have x0: "x \<noteq> 0" using False by (simp add: x_def)
  have x1: "1 \<le> \<bar>x\<bar>" using False by (simp add: x_def flip: of_int_abs)
  have x53: "\<bar>x\<bar> < 2 ^ 53"
  proof -
    have "(of_int \<bar>k\<bar> :: rat) < of_int (2 ^ 53)" using assms by (simp only: of_int_less_iff)
    then show ?thesis by (simp add: x_def)
  qed
  define b where "b = binade \<bar>x\<bar>"
  have bb: "pow2 b \<le> \<bar>x\<bar>" "\<bar>x\<bar> < pow2 (b + 1)"
    using binade_bounds [of "\<bar>x\<bar>"] x0 by (simp_all add: b_def)
  have b0: "0 \<le> b"
  proof (rule ccontr)
    assume "\<not> 0 \<le> b"
    then have "b + 1 \<le> 0" by simp
    then have "pow2 (b + 1) \<le> pow2 0" by (rule pow2_mono)
    with bb(2) x1 show False by (simp add: pow2_def)
  qed
  have b52: "b \<le> 52"
  proof (rule ccontr)
    assume "\<not> b \<le> 52"
    then have "53 \<le> b" by simp
    then have "pow2 53 \<le> pow2 b" by (rule pow2_mono)
    with bb(1) x53 show False by (simp add: pow2_def)
  qed
  define j where "j = nat (52 - b)"
  have e: "max (binade \<bar>x\<bar>) (- 1022) = b" using b0 by (simp add: b_def)
  have u: "pow2 (b - 52) = 1 / 2 ^ j"
  proof (cases "b = 52")
    case True
    then show ?thesis by (simp add: pow2_def j_def)
  next
    case False
    with b52 have "b - 52 < 0" by simp
    moreover have "nat (- (b - 52)) = j" by (simp add: j_def)
    ultimately show ?thesis by (simp add: pow2_def)
  qed
  have q: "\<bar>x\<bar> / pow2 (b - 52) = of_int (\<bar>k\<bar> * 2 ^ j)"
    by (simp add: u x_def)
  note R = rounding_step [OF x0, unfolded e]
  have y: "of_int (round_half_even (\<bar>x\<bar> / pow2 (b - 52))) * pow2 (b - 52) = \<bar>x\<bar>"
    unfolding q round_half_even_int by (simp add: u x_def)
  have "\<not> pow2 1024 \<le> \<bar>x\<bar>"
  proof -
    have "(2::rat) ^ 53 \<le> pow2 1024" by (simp add: pow2_def)
    with x53 show ?thesis by simp
  qed
  with R(3) have "to_double x = Finite (if x < 0 then - \<bar>x\<bar> else \<bar>x\<bar>)"
    unfolding y by simp
  then show ?thesis by (simp add: x_def [symmetric] abs_if)
qed


section \<open>The summary statistics\<close>

text \<open>
  The largest response time is found exactly; the percentage of errors, rounded twice,
  stays within \<open>10^-13\<close> of the exact percentage.
\<close>

lemma foldl_max_Max: "foldl max (l :: rat) ls = Max (set (l # ls))"
proof -
  have flip: "(\<lambda>x s. max s x) = (max :: rat \<Rightarrow> rat \<Rightarrow> rat)"
    by (intro ext) (rule max.commute)
  have "foldl max l ls = fold (\<lambda>x s. max s x) ls l"
    by (rule foldl_conv_fold)
  also have "\<dots> = fold max ls l"
    by (simp only: flip)
  also have "\<dots> = Max (set (l # ls))"
    by (rule Max.set_eq_fold [symmetric])
  finally show ?thesis .
qed

lemma peak_text:
  assumes "metrics \<noteq> []"
  shows "(case latencies metrics of [] \<Rightarrow> FixedNotation ''0.00'' | l # ls \<Rightarrow> toFixed 2 (foldl max l ls))
           = toFixed 2 (max_latency metrics)"
proof -
  from assms obtain m ms where ms: "metrics = m # ms" by (cases metrics) auto
  show ?thesis
    unfolding ms max_latency_def latencies_def by (simp only: list.map list.case foldl_max_Max)
qed

lemma to_double_near:
  assumes "to_double x = Finite y"
  shows "\<bar>y - x\<bar> \<le> \<bar>x\<bar> / 2 ^ 53 + 1 / 2 ^ 60"
proof -
  have "(1::rat) / 2 ^ 1075 \<le> 1 / 2 ^ 60" by simp
  with to_double_error [OF assms] show ?thesis by linarith
qed

lemma percent_in_doubles:
  assumes "metrics \<noteq> []"
  shows "\<exists>d. times_double (to_double (of_nat (errors metrics) / of_nat (length metrics))) 100 = Finite d \<and>
             \<bar>d - error_percent metrics\<bar> \<le> 1 / 10 ^ 13 \<and> \<bar>d\<bar> < 10 ^ 21"
proof -
  define q where "q = (of_nat (errors metrics) :: rat) / of_nat (length metrics)"
  have "errors metrics \<le> length metrics" by (simp add: errors_def)
  then have "(of_nat (errors metrics) :: rat) \<le> of_nat (length metrics)" by simp
  then have q1: "q \<le> 1" using assms by (simp add: q_def divide_le_eq_1)
  have q0: "0 \<le> q" by (simp add: q_def)
  have "\<bar>q\<bar> \<le> 2 ^ 1023" using q0 q1 by (simp add: order_trans [of q 1])
  then obtain d1 where d1: "to_double q = Finite d1" using to_double_finite by blast
  have e1: "\<bar>d1 - q\<bar> \<le> \<bar>q\<bar> / 2 ^ 53 + 1 / 2 ^ 60" by (rule to_double_near [OF d1])
  then have b1: "\<bar>d1 - q\<bar> \<le> 1 / 2 ^ 53 + 1 / 2 ^ 60" using q0 q1 by simp
  have c1: "(1::rat) / 2 ^ 53 + 1 / 2 ^ 60 \<le> 1" by simp
  from b1 c1 have "\<bar>d1 - q\<bar> \<le> 1" by linarith
  then have d1b: "\<bar>d1\<bar> \<le> 2" using q0 q1 by linarith
  then have "\<bar>d1 * 100\<bar> \<le> 200" by (simp add: abs_mult)
  then have "\<bar>d1 * 100\<bar> \<le> 2 ^ 1023" by (rule order_trans) simp
  then obtain d where d: "to_double (d1 * 100) = Finite d" using to_double_finite by blast
  have e2: "\<bar>d - d1 * 100\<bar> \<le> \<bar>d1 * 100\<bar> / 2 ^ 53 + 1 / 2 ^ 60" by (rule to_double_near [OF d])
  have "\<bar>d1 * 100\<bar> \<le> 200" by fact
  with e2 have b2: "\<bar>d - d1 * 100\<bar> \<le> 200 / 2 ^ 53 + 1 / 2 ^ 60" by simp
  have split: "d - q * 100 = (d - d1 * 100) + 100 * (d1 - q)" by simp
  have "\<bar>d - q * 100\<bar> \<le> \<bar>d - d1 * 100\<bar> + \<bar>100 * (d1 - q)\<bar>"
    unfolding split by (rule abs_triangle_ineq)
  also have "\<bar>100 * (d1 - q)\<bar> = 100 * \<bar>d1 - q\<bar>"
    using abs_mult [of 100 "d1 - q"] by (simp only: abs_numeral)
  finally have "\<bar>d - q * 100\<bar> \<le> \<bar>d - d1 * 100\<bar> + 100 * \<bar>d1 - q\<bar>" .
  also have "\<dots> \<le> (200 / 2 ^ 53 + 1 / 2 ^ 60) + 100 * (1 / 2 ^ 53 + 1 / 2 ^ 60)"
    using b1 b2 by simp
  also have "\<dots> \<le> 1 / 10 ^ 13" by simp
  finally have near: "\<bar>d - q * 100\<bar> \<le> 1 / 10 ^ 13" .
  have "\<bar>q * 100\<bar> \<le> 100" using q0 q1 by simp
  moreover have "(1::rat) / 10 ^ 13 \<le> 1" "(101::rat) < 10 ^ 21" by simp_all
  ultimately have small: "\<bar>d\<bar> < 10 ^ 21" using near by linarith
  have "times_double (to_double q) 100 = Finite d" by (simp add: d1 d)
  moreover have "error_percent metrics = q * 100" by (simp add: error_percent_def q_def errors_def)
  ultimately show ?thesis using near small unfolding q_def by auto
qed

text \<open>
  The sum of whole, non-negative response times is exact while it is below \<open>2^53\<close>.
\<close>

lemma totalLatency_whole:
  assumes "\<forall>m\<in>set metrics. or_zero (responseTimeMs m) \<in> \<nat>"
    and "sum_list (latencies metrics) < 2 ^ 53"
  shows "totalLatency metrics = Finite (sum_list (latencies metrics))"
  using assms
proof (induction metrics rule: rev_induct)
  case Nil
  show ?case by (simp add: totalLatency_def latencies_def)
next
  case (snoc m metrics)
  define v where "v = or_zero (responseTimeMs m)"
  have v: "v \<in> \<nat>" using snoc.prems(1) by (simp add: v_def)
  have all: "\<forall>m\<in>set metrics. or_zero (responseTimeMs m) \<in> \<nat>" using snoc.prems(1) by simp
  have pos: "0 \<le> or_zero (responseTimeMs r)" if "r \<in> set metrics" for r
  proof -
    from that all have "or_zero (responseTimeMs r) \<in> \<nat>" by simp
    then obtain n where "or_zero (responseTimeMs r) = of_nat n" by (rule Nats_cases)
    then show ?thesis by simp
  qed
  have nn: "0 \<le> sum_list (latencies metrics)"
    unfolding latencies_def by (rule sum_list_nonneg) (auto simp: pos)
  have v0: "0 \<le> v"
  proof -
    from v obtain n where "v = of_nat n" by (rule Nats_cases)
    then show ?thesis by simp
  qed
  have tot: "sum_list (latencies metrics) + v < 2 ^ 53"
    using snoc.prems(2) by (simp add: latencies_def v_def)
  then have "sum_list (latencies metrics) < 2 ^ 53" using v0 by linarith
  with snoc.IH all have ih: "totalLatency metrics = Finite (sum_list (latencies metrics))" by simp
  have "sum_list (latencies metrics) \<in> \<nat>"
    using all by (induction metrics) (simp_all add: latencies_def)
  with v have "sum_list (latencies metrics) + v \<in> \<nat>" by simp
  then obtain n where n: "sum_list (latencies metrics) + v = of_nat n" by (rule Nats_cases)
  then have "(of_int (int n) :: rat) < 2 ^ 53" using tot by simp
  then have "(of_int (int n) :: rat) < of_int (2 ^ 53)" by simp
  then have "int n < 2 ^ 53" by (simp only: of_int_less_iff)
  moreover have "\<bar>int n\<bar> = int n" by (rule abs_of_nat)
  ultimately have "\<bar>int n\<bar> < 2 ^ 53" by (simp only:)
  then have "to_double (of_int (int n)) = Finite (of_int (int n))"
    by (rule to_double_whole)
  then have "to_double (sum_list (latencies metrics) + v) = Finite (sum_list (latencies metrics) + v)"
    by (simp add: n)
  then have "plus_double (totalLatency metrics) v = Finite (sum_list (latencies metrics) + v)"
    by (simp add: ih)
  moreover have "totalLatency (metrics @ [m]) = plus_double (totalLatency metrics) v"
    by (simp add: totalLatency_def v_def)
  moreover have "sum_list (latencies (metrics @ [m])) = sum_list (latencies metrics) + v"
    by (simp add: latencies_def v_def)
  ultimately show ?case by (simp only:)
qed

text \<open>
  The sum from left to right of \<open>n\<close> numbers, each step rounded, is within
  \<open>((1 + 2^-53)^n - 1) * (sum of magnitudes + 2^-7)\<close> of the exact sum, and
  \<open>(1 + 2^-53)^n - 1 \<le> n / 2^52\<close> up to \<open>n = 2^52\<close>.
\<close>

lemma compound_bound:
  fixes u :: rat
  assumes "0 \<le> u" "2 * of_nat n * u \<le> 1"
  shows "(1 + u) ^ n \<le> 1 + 2 * of_nat n * u"
  using assms(2)
proof (induction n)
  case 0
  show ?case by simp
next
  case (Suc n)
  have nu: "0 \<le> of_nat n * u" using assms(1) by simp
  have s: "2 * of_nat n * u + 2 * u \<le> 1" using Suc.prems by (simp add: algebra_simps)
  then have le: "2 * of_nat n * u \<le> 1" using assms(1) by linarith
  with Suc.IH have ih: "(1 + u) ^ n \<le> 1 + 2 * of_nat n * u" by simp
  have "(1 + u) ^ Suc n = (1 + u) * (1 + u) ^ n" by simp
  also have "\<dots> \<le> (1 + u) * (1 + 2 * of_nat n * u)"
    using ih assms(1) by (intro mult_left_mono) simp_all
  also have "\<dots> = 1 + 2 * of_nat n * u + u + (2 * of_nat n * u) * u"
    by (simp add: algebra_simps)
  also have "\<dots> \<le> 1 + 2 * of_nat n * u + u + 1 * u"
    using mult_right_mono [OF le assms(1)] by linarith
  also have "\<dots> = 1 + 2 * of_nat (Suc n) * u" by (simp add: algebra_simps)
  finally show ?case .
qed

lemma rounded_sum_step:
  fixes u k c a s s' t t' x :: rat
  assumes u: "0 \<le> u" and c: "0 \<le> c" and k: "0 \<le> k"
    and e1: "\<bar>s' - t'\<bar> \<le> c * (a + k)"
    and e2: "\<bar>s - (s' + x)\<bar> \<le> \<bar>s' + x\<bar> * u + u * k"
    and t: "\<bar>t'\<bar> \<le> a"
  shows "\<bar>s - (t' + x)\<bar> \<le> ((1 + u) * (c + 1) - 1) * (a + \<bar>x\<bar> + k)"
proof -
  define b where "b = a + \<bar>x\<bar> + k"
  have "a + k \<le> b" by (simp add: b_def)
  then have "c * (a + k) \<le> c * b" using c by (rule mult_left_mono)
  with e1 have e1': "\<bar>s' - t'\<bar> \<le> c * b" by linarith
  have "\<bar>s' + x\<bar> \<le> \<bar>s' - t'\<bar> + \<bar>t'\<bar> + \<bar>x\<bar>" by linarith
  with e1' t have "\<bar>s' + x\<bar> \<le> c * b + b - k" by (simp add: b_def)
  then have "\<bar>s' + x\<bar> * u \<le> (c * b + b - k) * u" using u by (rule mult_right_mono)
  with e2 have "\<bar>s - (s' + x)\<bar> \<le> (c * b + b - k) * u + u * k" by linarith
  then have e2': "\<bar>s - (s' + x)\<bar> \<le> u * (c * b) + u * b" by (simp add: algebra_simps)
  have "\<bar>s - (t' + x)\<bar> \<le> \<bar>s - (s' + x)\<bar> + \<bar>s' - t'\<bar>" by linarith
  with e1' e2' have "\<bar>s - (t' + x)\<bar> \<le> u * (c * b) + u * b + c * b" by linarith
  also have "\<dots> = ((1 + u) * (c + 1) - 1) * b" by (simp add: algebra_simps)
  finally show ?thesis by (simp only: b_def)
qed

lemma totalLatency_snoc:
  "totalLatency (metrics @ [m]) = plus_double (totalLatency metrics) (or_zero (responseTimeMs m))"
  by (simp add: totalLatency_def)

lemma totalLatency_compound:
  assumes "totalLatency metrics = Finite s"
  shows "\<bar>s - sum_list (latencies metrics)\<bar> \<le>
           ((1 + 1 / 2 ^ 53) ^ length metrics - 1) *
             (sum_list (map abs (latencies metrics)) + 1 / 2 ^ 7)"
  using assms
proof (induction metrics arbitrary: s rule: rev_induct)
  case Nil
  then show ?case by (simp add: totalLatency_def latencies_def)
next
  case (snoc m metrics)
  define x where "x = or_zero (responseTimeMs m)"
  define u :: rat where "u = 1 / 2 ^ 53"
  define k :: rat where "k = 1 / 2 ^ 7"
  define c where "c = (1 + u) ^ length metrics - 1"
  have u0: "0 \<le> u" by (simp add: u_def)
  have k0: "0 \<le> k" by (simp add: k_def)
  have "1 \<le> 1 + u" using u0 by simp
  then have "1 \<le> (1 + u) ^ length metrics" by (rule one_le_power)
  then have c0: "0 \<le> c" by (simp add: c_def)
  have uk: "u * k = 1 / 2 ^ 60" by (simp add: u_def k_def)
  from snoc.prems have p: "plus_double (totalLatency metrics) x = Finite s"
    by (simp add: totalLatency_snoc x_def)
  then obtain s' where s': "totalLatency metrics = Finite s'"
    by (cases "totalLatency metrics") simp_all
  with p have r: "to_double (s' + x) = Finite s" by simp
  have e2: "\<bar>s - (s' + x)\<bar> \<le> \<bar>s' + x\<bar> * u + u * k"
    using to_double_near [OF r] by (simp add: uk) (simp add: u_def)
  have e1: "\<bar>s' - sum_list (latencies metrics)\<bar> \<le>
              c * (sum_list (map abs (latencies metrics)) + k)"
    using snoc.IH [OF s'] by (simp only: c_def u_def k_def)
  have t: "\<bar>sum_list (latencies metrics)\<bar> \<le> sum_list (map abs (latencies metrics))"
    by (rule sum_list_abs)
  have "\<bar>s - (sum_list (latencies metrics) + x)\<bar> \<le>
          ((1 + u) * (c + 1) - 1) * (sum_list (map abs (latencies metrics)) + \<bar>x\<bar> + k)"
    by (rule rounded_sum_step [OF u0 c0 k0 e1 e2 t])
  moreover have "(1 + u) * (c + 1) - 1 = (1 + u) ^ length (metrics @ [m]) - 1"
    by (simp add: c_def)
  moreover have "sum_list (latencies (metrics @ [m])) = sum_list (latencies metrics) + x"
    by (simp add: latencies_def x_def)
  moreover have "sum_list (map abs (latencies (metrics @ [m]))) =
                   sum_list (map abs (latencies metrics)) + \<bar>x\<bar>"
    by (simp add: latencies_def x_def)
  ultimately show ?case by (simp only: u_def k_def)
qed

lemma totalLatency_error:
  assumes s: "totalLatency metrics = Finite s" and n: "length metrics \<le> 2 ^ 52"
  shows "\<bar>s - sum_list (latencies metrics)\<bar> \<le>
           of_nat (length metrics) / 2 ^ 52 * (sum_list (map abs (latencies metrics)) + 1 / 2 ^ 7)"
proof -
  define u :: rat where "u = 1 / 2 ^ 53"
  define a where "a = sum_list (map abs (latencies metrics)) + 1 / 2 ^ 7"
  have u0: "0 \<le> u" by (simp add: u_def)
  have a0: "0 \<le> a"
  proof -
    have "0 \<le> sum_list (map abs (latencies metrics))" by (rule sum_list_nonneg) auto
    then show ?thesis by (simp add: a_def)
  qed
  have "(of_nat (length metrics) :: rat) \<le> of_nat (2 ^ 52)" using n by (simp only: of_nat_le_iff)
  then have "(of_nat (length metrics) :: rat) \<le> 2 ^ 52" by simp
  then have "2 * of_nat (length metrics) * u \<le> 1" by (simp add: u_def)
  with u0 have "(1 + u) ^ length metrics \<le> 1 + 2 * of_nat (length metrics) * u"
    by (rule compound_bound)
  then have "(1 + u) ^ length metrics - 1 \<le> of_nat (length metrics) / 2 ^ 52"
    by (simp add: u_def)
  then have "((1 + u) ^ length metrics - 1) * a \<le> of_nat (length metrics) / 2 ^ 52 * a"
    using a0 by (rule mult_right_mono)
  moreover have "\<bar>s - sum_list (latencies metrics)\<bar> \<le> ((1 + u) ^ length metrics - 1) * a"
    using totalLatency_compound [OF s] by (simp only: u_def a_def)
  ultimately show ?thesis unfolding a_def by linarith
qed

lemma mean_in_doubles:
  assumes ne: "metrics \<noteq> []" and n: "length metrics \<le> 2 ^ 52"
    and d: "divide_double (totalLatency metrics) (length metrics) = Finite d"
  shows "\<bar>d - mean_latency metrics\<bar> \<le> (sum_list (map abs (latencies metrics)) + 1) / 2 ^ 51"
proof -
  define l :: rat where "l = of_nat (length metrics)"
  define t where "t = sum_list (latencies metrics)"
  define a where "a = sum_list (map abs (latencies metrics))"
  have l1: "1 \<le> l" using ne by (cases metrics) (simp_all add: l_def)
  have a0: "0 \<le> a" unfolding a_def by (rule sum_list_nonneg) auto
  have ta: "\<bar>t\<bar> \<le> a" unfolding t_def a_def by (rule sum_list_abs)
  from d obtain s where s: "totalLatency metrics = Finite s"
    by (cases "totalLatency metrics") simp_all
  with d have r: "to_double (s / l) = Finite d" by (simp add: l_def)
  have "\<bar>s - t\<bar> \<le> l / 2 ^ 52 * (a + 1 / 2 ^ 7)"
    using totalLatency_error [OF s n] by (simp only: l_def t_def a_def)
  then have "\<bar>s - t\<bar> / l \<le> (l / 2 ^ 52 * (a + 1 / 2 ^ 7)) / l"
    using l1 by (intro divide_right_mono) simp_all
  then have e: "\<bar>s - t\<bar> / l \<le> (a + 1 / 2 ^ 7) / 2 ^ 52" using l1 by simp
  have dl: "\<bar>y\<bar> / l \<le> \<bar>y\<bar>" for y :: rat
  proof -
    have "\<bar>y\<bar> / l \<le> \<bar>y\<bar> / 1" using l1 by (intro divide_left_mono) simp_all
    then show ?thesis by simp
  qed
  have q1: "\<bar>s / l - t / l\<bar> = \<bar>s - t\<bar> / l"
    using l1 by (simp add: diff_divide_distrib [symmetric])
  have "\<bar>s / l\<bar> \<le> \<bar>s / l - t / l\<bar> + \<bar>t / l\<bar>" by linarith
  also have "\<bar>t / l\<bar> = \<bar>t\<bar> / l" using l1 by simp
  finally have "\<bar>s / l\<bar> \<le> \<bar>s - t\<bar> / l + \<bar>t\<bar> / l" by (simp only: q1)
  with dl [of t] ta e have sl: "\<bar>s / l\<bar> \<le> (a + 1 / 2 ^ 7) / 2 ^ 52 + a" by linarith
  have "\<bar>d - s / l\<bar> \<le> \<bar>s / l\<bar> / 2 ^ 53 + 1 / 2 ^ 60" by (rule to_double_near [OF r])
  moreover have "\<bar>s / l\<bar> / 2 ^ 53 \<le> ((a + 1 / 2 ^ 7) / 2 ^ 52 + a) / 2 ^ 53"
    using sl by (intro divide_right_mono) simp_all
  ultimately have dd: "\<bar>d - s / l\<bar> \<le> ((a + 1 / 2 ^ 7) / 2 ^ 52 + a) / 2 ^ 53 + 1 / 2 ^ 60"
    by linarith
  have "\<bar>d - t / l\<bar> \<le> \<bar>d - s / l\<bar> + \<bar>s / l - t / l\<bar>" by linarith
  with dd e q1 have "\<bar>d - t / l\<bar> \<le>
      ((a + 1 / 2 ^ 7) / 2 ^ 52 + a) / 2 ^ 53 + 1 / 2 ^ 60 + (a + 1 / 2 ^ 7) / 2 ^ 52"
    by linarith
  also have "\<dots> \<le> (a + 1) / 2 ^ 51" using a0 by (simp add: field_simps)
  finally show ?thesis by (simp only: mean_latency_def latencies_def [symmetric] t_def l_def a_def)
qed

lemma totalLatency_magnitude:
  assumes s: "totalLatency metrics = Finite s" and n: "length metrics \<le> 2 ^ 52"
  shows "\<bar>s\<bar> \<le> 2 * sum_list (map abs (latencies metrics)) + 1"
proof -
  define a where "a = sum_list (map abs (latencies metrics))"
  define t where "t = sum_list (latencies metrics)"
  define l :: rat where "l = of_nat (length metrics)"
  have a0: "0 \<le> a" unfolding a_def by (rule sum_list_nonneg) auto
  have ta: "\<bar>t\<bar> \<le> a" unfolding t_def a_def by (rule sum_list_abs)
  have "l \<le> of_nat (2 ^ 52)" unfolding l_def using n by (simp only: of_nat_le_iff)
  then have "l / 2 ^ 52 \<le> 1" by simp
  moreover have "0 \<le> a + 1 / 2 ^ 7" using a0 by simp
  ultimately have "l / 2 ^ 52 * (a + 1 / 2 ^ 7) \<le> 1 * (a + 1 / 2 ^ 7)"
    by (rule mult_right_mono)
  moreover have "\<bar>s - t\<bar> \<le> l / 2 ^ 52 * (a + 1 / 2 ^ 7)"
    using totalLatency_error [OF s n] by (simp only: l_def t_def a_def)
  ultimately have "\<bar>s - t\<bar> \<le> a + 1" by simp
  with ta have "\<bar>s\<bar> \<le> 2 * a + 1" by linarith
  then show ?thesis by (simp only: a_def)
qed

lemma totalLatency_finite:
  assumes "length metrics \<le> 2 ^ 52" and "sum_list (map abs (latencies metrics)) \<le> b"
    and "2 * b + 1 \<le> 2 ^ 1023"
  shows "\<exists>s. totalLatency metrics = Finite s"
  using assms(1,2)
proof (induction metrics rule: rev_induct)
  case Nil
  show ?case by (simp add: totalLatency_def)
next
  case (snoc m metrics)
  define x where "x = or_zero (responseTimeMs m)"
  define a where "a = sum_list (map abs (latencies metrics))"
  have n: "length metrics \<le> 2 ^ 52" using snoc.prems(1) by simp
  have ax: "a + \<bar>x\<bar> \<le> b"
    using snoc.prems(2) by (simp add: latencies_def a_def x_def)
  then have "a \<le> b" by simp
  with snoc.IH n obtain s where s: "totalLatency metrics = Finite s"
    unfolding a_def by blast
  have "\<bar>s\<bar> \<le> 2 * a + 1" using totalLatency_magnitude [OF s n] by (simp only: a_def)
  moreover have "\<bar>s + x\<bar> \<le> \<bar>s\<bar> + \<bar>x\<bar>" by (rule abs_triangle_ineq)
  moreover have "0 \<le> \<bar>x\<bar>" by simp
  ultimately have "\<bar>s + x\<bar> \<le> 2 * (a + \<bar>x\<bar>) + 1" by simp
  also have "\<dots> \<le> 2 * b + 1" using ax by simp
  also have "\<dots> \<le> 2 ^ 1023" by (rule assms(3))
  finally have "\<bar>s + x\<bar> \<le> 2 ^ 1023" .
  then obtain y where "to_double (s + x) = Finite y" using to_double_finite by blast
  then show ?case by (simp add: totalLatency_snoc s x_def [symmetric])
qed

lemma mean_finite:
  assumes ne: "metrics \<noteq> []" and n: "length metrics \<le> 2 ^ 52"
    and a: "sum_list (map abs (latencies metrics)) \<le> 10 ^ 20"
  shows "\<exists>d. divide_double (totalLatency metrics) (length metrics) = Finite d \<and>
             \<bar>d - mean_latency metrics\<bar> \<le> (sum_list (map abs (latencies metrics)) + 1) / 2 ^ 51 \<and>
             \<bar>d\<bar> < 10 ^ 21"
proof -
  define l :: rat where "l = of_nat (length metrics)"
  define t where "t = sum_list (latencies metrics)"
  define b where "b = sum_list (map abs (latencies metrics))"
  define c :: rat where "c = 10 ^ 20"
  have c1: "2 * c + 1 \<le> 2 ^ 1023" by (simp add: c_def)
  have c2: "(c + 1) / 2 ^ 51 \<le> c" by (simp add: c_def)
  have c3: "2 * c < 10 ^ 21" by (simp add: c_def)
  have l1: "1 \<le> l" using ne by (cases metrics) (simp_all add: l_def)
  have bc: "b \<le> c" using a by (simp only: b_def c_def)
  have tb: "\<bar>t\<bar> \<le> b" unfolding t_def b_def by (rule sum_list_abs)
  from totalLatency_finite [OF n bc [unfolded b_def] c1]
  obtain s where s: "totalLatency metrics = Finite s" by blast
  have sb: "\<bar>s\<bar> \<le> 2 * b + 1" using totalLatency_magnitude [OF s n] by (simp only: b_def)
  have "\<bar>s / l\<bar> = \<bar>s\<bar> / l" using l1 by simp
  also have "\<dots> \<le> \<bar>s\<bar> / 1" using l1 by (intro divide_left_mono) simp_all
  finally have "\<bar>s / l\<bar> \<le> 2 * b + 1" using sb by simp
  also have "\<dots> \<le> 2 * c + 1" using bc by simp
  also have "\<dots> \<le> 2 ^ 1023" by (rule c1)
  finally have "\<bar>s / l\<bar> \<le> 2 ^ 1023" .
  then obtain d where "to_double (s / l) = Finite d" using to_double_finite by blast
  then have d: "divide_double (totalLatency metrics) (length metrics) = Finite d"
    by (simp add: s l_def)
  have near: "\<bar>d - mean_latency metrics\<bar> \<le> (b + 1) / 2 ^ 51"
    using mean_in_doubles [OF ne n d] by (simp only: b_def)
  have m: "\<bar>mean_latency metrics\<bar> \<le> b"
  proof -
    have "\<bar>t / l\<bar> = \<bar>t\<bar> / l" using l1 by simp
    also have "\<dots> \<le> \<bar>t\<bar> / 1" using l1 by (intro divide_left_mono) simp_all
    finally have "\<bar>t / l\<bar> \<le> b" using tb by simp
    then show ?thesis by (simp only: mean_latency_def latencies_def [symmetric] t_def l_def)
  qed
  have "(b + 1) / 2 ^ 51 \<le> (c + 1) / 2 ^ 51"
    using bc by (intro divide_right_mono) simp_all
  with near c2 have dm: "\<bar>d - mean_latency metrics\<bar> \<le> c" by simp
  have "\<bar>d\<bar> \<le> \<bar>d - mean_latency metrics\<bar> + \<bar>mean_latency metrics\<bar>" by simp
  with dm m bc have "\<bar>d\<bar> \<le> 2 * c" by simp
  then have "\<bar>d\<bar> < 10 ^ 21" using c3 by (rule le_less_trans)
  with d near show ?thesis unfolding b_def by blast
qed

text \<open>The records of the concrete inputs.\<close>

lemma floor_half: "\<lfloor>(1::rat) / 2\<rfloor> = 0"
  by (rule floor_unique) simp_all

lemmas toFixed_eval =
  toFixed_def Let_def floor_rat_numeral floor_half digits_numeral digits_small digit_char_def

lemma five_avg: "totalLatency five = Finite (3 / 8)"
  by (simp add: totalLatency_def five_def eighths_def blank_def double_eval)

lemma five_stats:
  "stats 65535 five =
     Inr \<lparr>avgLatency = FixedNotation ''0.07'', totalRequests = 5,
          errorRate = FixedNotation ''0.0'', peakLatency = FixedNotation ''0.38''\<rparr>"
proof -
  have len: "length five = 5" by (simp add: five_def)
  have err: "errors five = 0" by (simp add: errors_def five_def eighths_def blank_def)
  have lat: "latencies five = [3 / 8, 0, 0, 0, 0]"
    by (simp add: latencies_def five_def eighths_def blank_def)
  have avg: "divide_double (totalLatency five) 5 = Finite (5404319552844595 / 72057594037927936)"
    by (simp add: five_avg double_eval)
  have a: "toFixed 2 (5404319552844595 / 72057594037927936) = FixedNotation ''0.07''"
    by (simp add: toFixed_eval)
  have e: "toFixed (Suc 0) 0 = FixedNotation ''0.0''"
    by (simp add: toFixed_def Let_def floor_half digits_small)
  have p: "toFixed 2 (3 / 8) = FixedNotation ''0.38''"
    by (simp add: toFixed_eval)
  show ?thesis
    by (simp add: stats_def len err lat avg a e p to_double_zero)
qed

lemma eighty_stats:
  "stats 65535 eighty =
     Inr \<lparr>avgLatency = FixedNotation ''0.00'', totalRequests = 80,
          errorRate = FixedNotation ''28.7'', peakLatency = FixedNotation ''0.00''\<rparr>"
proof -
  have len: "length eighty = 80" by (simp add: eighty_def)
  have err: "errors eighty = 23" by (simp add: errors_def eighty_def failed_def blank_def)
  have ne: "eighty \<noteq> []" by (simp add: eighty_def)
  have zero: "\<forall>m \<in> set eighty. or_zero (responseTimeMs m) = 0"
    by (simp add: eighty_def failed_def blank_def)
  then have lat: "latencies eighty = replicate 80 0"
    unfolding latencies_def len [symmetric] by (simp add: map_replicate_const [symmetric] cong: map_cong)
  have "totalLatency eighty = Finite (sum_list (latencies eighty))"
    by (rule totalLatency_whole) (simp_all add: zero lat sum_list_replicate)
  then have tot: "totalLatency eighty = Finite 0" by (simp add: lat sum_list_replicate)
  have peak: "max_latency eighty = 0"
    by (simp add: max_latency_def latencies_def [symmetric] lat)
  have r: "times_double (to_double (23 / 80)) 100 =
             Finite (8092405580431359 / 281474976710656)"
    by (simp add: double_eval)
  have e: "toFixed (Suc 0) (8092405580431359 / 281474976710656) = FixedNotation ''28.7''"
    by (simp add: toFixed_eval)
  have z: "toFixed 2 0 = FixedNotation ''0.00''"
    by (simp add: toFixed_def Let_def floor_half digits_small)
  show ?thesis
    by (simp add: stats_def Let_def len err tot r e z to_double_zero peak_text [OF ne] peak)
      (simp add: latencies_def len)
qed

lemma parse_007: "parse_decimal ''0.07'' = Number (7 / 100)"
  by (simp add: parse_decimal_def Let_def is_digit_def digits_val_def digit_val_def)

lemma parse_287: "parse_decimal ''28.7'' = Number (287 / 10)"
  by (simp add: parse_decimal_def Let_def is_digit_def digits_val_def digit_val_def)

lemma five_mean: "mean_latency five = 3 / 40"
  by (simp add: mean_latency_def five_def eighths_def blank_def)

lemma eighty_percent: "error_percent eighty = 115 / 4"
  by (simp add: error_percent_def eighty_def failed_def blank_def)

lemma to_decimals_five: "to_decimals 2 (3 / 40) = 2 / 25"
  by (simp add: to_decimals_def floor_rat_numeral)

lemma to_decimals_eighty: "to_decimals (Suc 0) (115 / 4) = 144 / 5"
  by (simp add: to_decimals_def floor_rat_numeral)


lemma toFixed_200: "toFixed 2 200 = FixedNotation ''200.00''"
  by (simp add: toFixed_eval)

lemma toFixed_300: "toFixed 2 300 = FixedNotation ''300.00''"
  by (simp add: toFixed_eval)

lemma toFixed_667:
  "toFixed 1 (2345624805922133 / 35184372088832) = FixedNotation ''66.7''"
  by (simp add: toFixed_eval)

lemma three_percent:
  "times_double (to_double (of_nat (errors three) / of_nat (length three))) 100 =
     Finite (2345624805922133 / 35184372088832)"
proof -
  have "errors three = 2" by (simp add: errors_def three_def request_def blank_def)
  moreover have "length three = 3" by (simp add: three_def)
  ultimately show ?thesis by (simp add: double_eval)
qed


text \<open>
  C1, as the code has it. On the empty sequence \<open>stats\<close> is the record of zero texts. On
  a sequence longer than the engine's limit on the arguments of a call it throws a
  \<open>RangeError\<close>. Otherwise \<open>totalRequests\<close> is the length; \<open>avgLatency\<close> is \<open>toFixed(2)\<close>
  of the mean as computed in doubles (the sum from left to right, each step rounded,
  divided by the count); \<open>errorRate\<close> is \<open>toFixed(1)\<close> of a double \<open>percent\<close>, the rounded
  product by 100 of the rounded share of status codes from 400, which is within
  \<open>10^-13\<close> of the exact percentage and is shown with 1 decimal place; \<open>peakLatency\<close> is
  \<open>toFixed(2)\<close> of the largest response time, which is that number with 2 decimal places
  when it is below \<open>10^21\<close> in magnitude. For at most \<open>2^52\<close> records whose response
  times sum to at most \<open>10^20\<close> in magnitude the computed mean is finite, within
  \<open>(sum of magnitudes + 1) / 2^51\<close> of the exact mean, and shown with 2 decimal places;
  when the response times are whole, not negative, and sum to less than \<open>2^53\<close>, the
  computed mean is the exact mean rounded once to a double.
\<close>

theorem stats_correct:
  "stats k [] =
     Inr \<lparr>avgLatency = FixedNotation ''0.00'', totalRequests = 0,
          errorRate = FixedNotation ''0.0'', peakLatency = FixedNotation ''0.00''\<rparr> \<and>
   (metrics \<noteq> [] \<and> k < length metrics \<longrightarrow> stats k metrics = Inl RangeError) \<and>
   (metrics \<noteq> [] \<and> length metrics \<le> k \<longrightarrow>
      (\<exists>percent.
         stats k metrics =
           Inr \<lparr>avgLatency =
                  toFixed_double 2 (divide_double (totalLatency metrics) (length metrics)),
                totalRequests = length metrics,
                errorRate = toFixed 1 percent,
                peakLatency = toFixed 2 (max_latency metrics)\<rparr> \<and>
         times_double (to_double (of_nat (errors metrics) / of_nat (length metrics))) 100 =
           Finite percent \<and>
         \<bar>percent - error_percent metrics\<bar> \<le> 1 / 10 ^ 13 \<and>
         renders 1 percent (toFixed 1 percent)) \<and>
      (length metrics \<le> 2 ^ 52 \<and> sum_list (map abs (latencies metrics)) \<le> 10 ^ 20 \<longrightarrow>
         (\<exists>mean.
            divide_double (totalLatency metrics) (length metrics) = Finite mean \<and>
            \<bar>mean - mean_latency metrics\<bar> \<le>
              (sum_list (map abs (latencies metrics)) + 1) / 2 ^ 51 \<and>
            renders 2 mean (toFixed 2 mean))) \<and>
      ((\<forall>m \<in> set metrics. or_zero (responseTimeMs m) \<in> \<nat>) \<and>
         sum_list (latencies metrics) < 2 ^ 53 \<longrightarrow>
         divide_double (totalLatency metrics) (length metrics) =
           to_double (mean_latency metrics)) \<and>
      (\<bar>max_latency metrics\<bar> < 10 ^ 21 \<longrightarrow>
         renders 2 (max_latency metrics) (toFixed 2 (max_latency metrics))))"
proof -
  have empty: "stats k [] =
     Inr \<lparr>avgLatency = FixedNotation ''0.00'', totalRequests = 0,
          errorRate = FixedNotation ''0.0'', peakLatency = FixedNotation ''0.00''\<rparr>"
    by (simp add: stats_def)
  have range: "metrics \<noteq> [] \<and> k < length metrics \<longrightarrow> stats k metrics = Inl RangeError"
    by (simp add: stats_def Let_def latencies_def)
  have rest: "(\<exists>percent.
         stats k metrics =
           Inr \<lparr>avgLatency =
                  toFixed_double 2 (divide_double (totalLatency metrics) (length metrics)),
                totalRequests = length metrics,
                errorRate = toFixed 1 percent,
                peakLatency = toFixed 2 (max_latency metrics)\<rparr> \<and>
         times_double (to_double (of_nat (errors metrics) / of_nat (length metrics))) 100 =
           Finite percent \<and>
         \<bar>percent - error_percent metrics\<bar> \<le> 1 / 10 ^ 13 \<and>
         renders 1 percent (toFixed 1 percent)) \<and>
      (length metrics \<le> 2 ^ 52 \<and> sum_list (map abs (latencies metrics)) \<le> 10 ^ 20 \<longrightarrow>
         (\<exists>mean.
            divide_double (totalLatency metrics) (length metrics) = Finite mean \<and>
            \<bar>mean - mean_latency metrics\<bar> \<le>
              (sum_list (map abs (latencies metrics)) + 1) / 2 ^ 51 \<and>
            renders 2 mean (toFixed 2 mean))) \<and>
      ((\<forall>m \<in> set metrics. or_zero (responseTimeMs m) \<in> \<nat>) \<and>
         sum_list (latencies metrics) < 2 ^ 53 \<longrightarrow>
         divide_double (totalLatency metrics) (length metrics) =
           to_double (mean_latency metrics)) \<and>
      (\<bar>max_latency metrics\<bar> < 10 ^ 21 \<longrightarrow>
         renders 2 (max_latency metrics) (toFixed 2 (max_latency metrics)))"
    if ne: "metrics \<noteq> []" and le: "length metrics \<le> k"
  proof -
    from percent_in_doubles [OF ne] obtain d where
      d: "times_double (to_double (of_nat (errors metrics) / of_nat (length metrics))) 100 =
            Finite d"
      and near: "\<bar>d - error_percent metrics\<bar> \<le> 1 / 10 ^ 13" and small: "\<bar>d\<bar> < 10 ^ 21"
      by blast
    from small have shown: "renders 1 d (toFixed 1 d)" by (rule toFixed_renders)
    have result: "stats k metrics =
           Inr \<lparr>avgLatency =
                  toFixed_double 2 (divide_double (totalLatency metrics) (length metrics)),
                totalRequests = length metrics,
                errorRate = toFixed 1 d,
                peakLatency = toFixed 2 (max_latency metrics)\<rparr>"
      using ne le by (simp add: stats_def Let_def d peak_text) (simp add: latencies_def)
    have mean: "\<exists>mean.
            divide_double (totalLatency metrics) (length metrics) = Finite mean \<and>
            \<bar>mean - mean_latency metrics\<bar> \<le>
              (sum_list (map abs (latencies metrics)) + 1) / 2 ^ 51 \<and>
            renders 2 mean (toFixed 2 mean)"
      if "length metrics \<le> 2 ^ 52" and "sum_list (map abs (latencies metrics)) \<le> 10 ^ 20"
      using mean_finite [OF ne that] by (blast intro: toFixed_renders)
    have whole: "divide_double (totalLatency metrics) (length metrics) =
           to_double (mean_latency metrics)"
      if "\<forall>m \<in> set metrics. or_zero (responseTimeMs m) \<in> \<nat>"
        and "sum_list (latencies metrics) < 2 ^ 53"
      using totalLatency_whole [OF that] by (simp add: mean_latency_def latencies_def)
    have peak: "renders 2 (max_latency metrics) (toFixed 2 (max_latency metrics))"
      if "\<bar>max_latency metrics\<bar> < 10 ^ 21"
      using that by (rule toFixed_renders)
    from d near shown result mean whole peak show ?thesis by blast
  qed
  from empty range rest show ?thesis by blast
qed

theorem stats_correct_witness:
  "stats 65535 three =
     Inr \<lparr>avgLatency = FixedNotation ''200.00'', totalRequests = 3,
          errorRate = FixedNotation ''66.7'', peakLatency = FixedNotation ''300.00''\<rparr> \<and>
   stats 2 three = Inl RangeError \<and>
   mean_latency three = 200 \<and> max_latency three = 300 \<and>
   divide_double (totalLatency three) (length three) = Finite 200 \<and>
   renders 2 200 (FixedNotation ''200.00'') \<and>
   renders 2 300 (FixedNotation ''300.00'') \<and>
   renders 1 (2345624805922133 / 35184372088832) (FixedNotation ''66.7'')"
proof -
  have ne: "three \<noteq> []" by (simp add: three_def)
  have len: "length three = 3" by (simp add: three_def)
  have le: "length three \<le> 65535" by (simp add: len)
  have lt: "2 < length three" by (simp add: len)
  have few: "length three \<le> 2 ^ 52" by (simp add: len)
  have whole: "\<forall>m \<in> set three. or_zero (responseTimeMs m) \<in> \<nat>"
    by (simp add: three_def request_def blank_def)
  have total: "sum_list (latencies three) < 2 ^ 53"
    by (simp add: latencies_def three_def request_def blank_def)
  have sized: "sum_list (map abs (latencies three)) \<le> 10 ^ 20"
    by (simp add: latencies_def three_def request_def blank_def)
  have mean: "mean_latency three = 200"
    by (simp add: mean_latency_def three_def request_def blank_def)
  have peak: "max_latency three = 300"
    by (simp add: max_latency_def three_def request_def blank_def)
  have small: "\<bar>max_latency three\<bar> < 10 ^ 21" by (simp add: peak)
  have d200: "to_double 200 = Finite 200" by (simp add: double_eval)
  note T = stats_correct [of 65535 three]
  note U = stats_correct [of 2 three]
  from U ne lt have range: "stats 2 three = Inl RangeError" by blast
  from T ne le obtain percent where
    p: "times_double (to_double (of_nat (errors three) / of_nat (length three))) 100 =
          Finite percent"
    and shown: "renders 1 percent (toFixed 1 percent)"
    and result: "stats 65535 three =
           Inr \<lparr>avgLatency =
                  toFixed_double 2 (divide_double (totalLatency three) (length three)),
                totalRequests = length three,
                errorRate = toFixed 1 percent,
                peakLatency = toFixed 2 (max_latency three)\<rparr>"
    by blast
  from p have percent: "percent = 2345624805922133 / 35184372088832"
    by (simp only: three_percent double.inject)
  from T ne le whole total
  have "divide_double (totalLatency three) (length three) = to_double (mean_latency three)"
    by blast
  then have avg: "divide_double (totalLatency three) (length three) = Finite 200"
    by (simp only: mean d200)
  from T ne le few sized obtain computed where
    c: "divide_double (totalLatency three) (length three) = Finite computed"
    and r: "renders 2 computed (toFixed 2 computed)"
    by blast
  from c have "computed = 200" by (simp only: avg double.inject)
  with r have r2: "renders 2 200 (FixedNotation ''200.00'')" by (simp only: toFixed_200)
  from T ne le small have "renders 2 (max_latency three) (toFixed 2 (max_latency three))"
    by blast
  then have r3: "renders 2 300 (FixedNotation ''300.00'')" by (simp only: peak toFixed_300)
  from shown have r1:
    "renders 1 (2345624805922133 / 35184372088832) (FixedNotation ''66.7'')"
    by (simp only: percent toFixed_667)
  from result have "stats 65535 three =
     Inr \<lparr>avgLatency = FixedNotation ''200.00'', totalRequests = 3,
          errorRate = FixedNotation ''66.7'', peakLatency = FixedNotation ''300.00''\<rparr>"
    by (simp only: avg avg [unfolded len] percent peak len toFixed_double.simps toFixed_200
      toFixed_300 toFixed_667)
  with range mean peak avg r1 r2 r3 show ?thesis by blast
qed

text \<open>
  C1 as stated fails, because the mean and the percentage are computed in doubles. One
  response time of 0.375 ms among five requests has the mean 0.075, which is 0.08 to 2
  decimal places, but 0.375 / 5 is the double just below 0.075 and \<open>avgLatency\<close> is
  \<open>0.07\<close>. And 23 errors among 80 requests are 28.75 percent, which is 28.8 to 1 decimal
  place, but (23 / 80) * 100 is the double 28.749999999999996... and \<open>errorRate\<close> is
  \<open>28.7\<close>.
\<close>

theorem stats_rounds_in_doubles:
  "to_double (3 / 8) = Finite (3 / 8) \<and>
   stats 65535 five =
     Inr \<lparr>avgLatency = FixedNotation ''0.07'', totalRequests = 5,
          errorRate = FixedNotation ''0.0'', peakLatency = FixedNotation ''0.38''\<rparr> \<and>
   mean_latency five = 3 / 40 \<and>
   to_decimals 2 (mean_latency five) = 8 / 100 \<and>
   \<not> renders 2 (mean_latency five) (FixedNotation ''0.07'') \<and>
   stats 65535 eighty =
     Inr \<lparr>avgLatency = FixedNotation ''0.00'', totalRequests = 80,
          errorRate = FixedNotation ''28.7'', peakLatency = FixedNotation ''0.00''\<rparr> \<and>
   error_percent eighty = 115 / 4 \<and>
   to_decimals 1 (error_percent eighty) = 288 / 10 \<and>
   \<not> renders 1 (error_percent eighty) (FixedNotation ''28.7'')"
proof -
  have "to_double (3 / 8) = Finite (3 / 8)" by (simp add: double_eval)
  then show ?thesis
    by (simp add: five_stats eighty_stats five_mean eighty_percent to_decimals_five
        to_decimals_eighty parse_007 parse_287)
qed

end
